theory Spec2Isabelle
  imports Main "HOL-Library.Word" "HOL-Library.Log_Nat"
begin

unbundle bit_operations_syntax

section \<open>Machine integers and faults\<close>

text \<open>
  The module is compiled for a 32-bit WebAssembly target (the descriptor's data pointer is
  a \<open>u32\<close>), so \<open>uint32_t\<close> and \<open>size_t\<close> are both 32 bits wide and \<open>uint16_t\<close>
  operands are promoted to \<open>int\<close> before arithmetic.  Words wrap around as the C types do.
\<close>

type_synonym u8 = "8 word"
type_synonym u16 = "16 word"
type_synonym u32 = "32 word"

text \<open>
  What the C program leaves undefined, or what traps in the sandbox, is a fault of the
  model: an integer division by zero, an access outside the addressed object, an access
  through the null pointer, and a floating-point value converted to an integer type that
  cannot represent it.
\<close>

datatype fault = DivByZero | OutOfBounds | NullPointer | CastRange

section \<open>Floating-point numbers\<close>

text \<open>
  A \<open>float\<close> or \<open>double\<close> is modelled by the number it denotes: a finite rational, an
  infinity or NaN.  The sign of zero and the payload of a NaN are not tracked (no
  operation of the module can observe them: it never divides by a value that can be a
  negative zero).  Every arithmetic operation computes the exact result and rounds it to
  the format with IEEE 754 round-to-nearest, ties-to-even.
\<close>

datatype fval = Finite rat | PInf | NInf | NaN

record fformat =
  prec :: nat   \<comment> \<open>bits of the significand, the hidden bit included\<close>
  qmin :: int   \<comment> \<open>exponent of the smallest subnormal\<close>
  emax :: int   \<comment> \<open>largest exponent of a finite number\<close>

definition binary32 :: fformat where
  "binary32 = \<lparr>prec = 24, qmin = -149, emax = 127\<rparr>"

definition binary64 :: fformat where
  "binary64 = \<lparr>prec = 53, qmin = -1074, emax = 1023\<rparr>"

text \<open>\<open>ilog2 x\<close> is the integer \<open>k\<close> with \<open>2^k \<le> x < 2^(k+1)\<close>, for positive \<open>x\<close>.\<close>

definition ilog2 :: "rat \<Rightarrow> int" where
  "ilog2 x = (if 1 \<le> x then bitlen \<lfloor>x\<rfloor> - 1 else - bitlen (\<lceil>1 / x\<rceil> - 1))"

text \<open>Rounding to the nearest integer, a tie going to the even one.\<close>

definition rne :: "rat \<Rightarrow> int" where
  "rne t = (let f = \<lfloor>t\<rfloor>; r = t - of_int f in
     if r < 1 / 2 then f else if 1 / 2 < r then f + 1 else if even f then f else f + 1)"

text \<open>
  \<open>qexp f x\<close> is the exponent of the unit in the last place of the format at \<open>x\<close>;
  \<open>round_to f x\<close> is the multiple of that unit nearest to \<open>x\<close> (the exponent is not
  bounded above); \<open>fround\<close> gives the infinity when that is beyond the largest finite
  number of the format.
\<close>

definition qexp :: "fformat \<Rightarrow> rat \<Rightarrow> int" where
  "qexp f x = max (ilog2 \<bar>x\<bar> - int (prec f) + 1) (qmin f)"

definition round_to :: "fformat \<Rightarrow> rat \<Rightarrow> rat" where
  "round_to f x =
    (if x = 0 then 0 else of_int (rne (x / 2 powi qexp f x)) * 2 powi qexp f x)"

definition fround :: "fformat \<Rightarrow> rat \<Rightarrow> fval" where
  "fround f x =
    (let r = round_to f x
     in if 2 powi (emax f + 1) \<le> \<bar>r\<bar> then (if 0 < x then PInf else NInf) else Finite r)"

fun is_neg :: "fval \<Rightarrow> bool" where
  "is_neg (Finite x) = (x < 0)"
| "is_neg NInf = True"
| "is_neg PInf = False"
| "is_neg NaN = False"

fun fneg :: "fval \<Rightarrow> fval" where
  "fneg (Finite x) = Finite (- x)"
| "fneg PInf = NInf"
| "fneg NInf = PInf"
| "fneg NaN = NaN"

definition fmul :: "fformat \<Rightarrow> fval \<Rightarrow> fval \<Rightarrow> fval" where
  "fmul f a b =
    (if a = NaN \<or> b = NaN then NaN
     else case (a, b) of
       (Finite x, Finite y) \<Rightarrow> fround f (x * y)
     | _ \<Rightarrow> if a = Finite 0 \<or> b = Finite 0 then NaN
            else if is_neg a = is_neg b then PInf else NInf)"

definition fdiv :: "fformat \<Rightarrow> fval \<Rightarrow> fval \<Rightarrow> fval" where
  "fdiv f a b =
    (if a = NaN \<or> b = NaN then NaN
     else case (a, b) of
       (Finite x, Finite y) \<Rightarrow>
         if y = 0 then (if x = 0 then NaN else if 0 < x then PInf else NInf)
         else fround f (x / y)
     | (Finite x, _) \<Rightarrow> Finite 0
     | (_, Finite y) \<Rightarrow> if is_neg a = is_neg b then PInf else NInf
     | _ \<Rightarrow> NaN)"

definition fadd :: "fformat \<Rightarrow> fval \<Rightarrow> fval \<Rightarrow> fval" where
  "fadd f a b =
    (if a = NaN \<or> b = NaN then NaN
     else case (a, b) of
       (Finite x, Finite y) \<Rightarrow> fround f (x + y)
     | (Finite x, _) \<Rightarrow> b
     | (_, Finite y) \<Rightarrow> a
     | _ \<Rightarrow> if a = b then a else NaN)"

definition fsub :: "fformat \<Rightarrow> fval \<Rightarrow> fval \<Rightarrow> fval" where
  "fsub f a b = fadd f a (fneg b)"

text \<open>The comparison \<open>a < b\<close>: false as soon as an operand is NaN.\<close>

fun flt :: "fval \<Rightarrow> fval \<Rightarrow> bool" where
  "flt NaN _ = False"
| "flt _ NaN = False"
| "flt (Finite x) (Finite y) = (x < y)"
| "flt PInf _ = False"
| "flt _ PInf = True"
| "flt _ NInf = False"
| "flt NInf _ = True"

text \<open>\<open>fminf\<close> and \<open>fmaxf\<close> of the C library: a NaN operand is ignored.\<close>

definition fminf :: "fval \<Rightarrow> fval \<Rightarrow> fval" where
  "fminf x y = (if x = NaN then y else if y = NaN then x else if flt x y then x else y)"

definition fmaxf :: "fval \<Rightarrow> fval \<Rightarrow> fval" where
  "fmaxf x y = (if x = NaN then y else if y = NaN then x else if flt x y then y else x)"

text \<open>Conversion of an integer to a format, and of a value to another format.\<close>

definition f_of_int :: "fformat \<Rightarrow> int \<Rightarrow> fval" where
  "f_of_int f i = fround f (of_int i)"

definition f_convert :: "fformat \<Rightarrow> fval \<Rightarrow> fval" where
  "f_convert f v = (case v of Finite x \<Rightarrow> fround f x | _ \<Rightarrow> v)"

text \<open>
  Conversion to an integer type with the values \<open>lo .. hi\<close>: the fraction is discarded
  (truncation toward zero); a value the type cannot hold has no defined result.
\<close>

definition trunc :: "rat \<Rightarrow> int" where
  "trunc x = (if 0 \<le> x then \<lfloor>x\<rfloor> else \<lceil>x\<rceil>)"

definition f_to_int :: "int \<Rightarrow> int \<Rightarrow> fval \<Rightarrow> fault + int" where
  "f_to_int lo hi v =
    (case v of
       Finite x \<Rightarrow> if lo \<le> trunc x \<and> trunc x \<le> hi then Inr (trunc x) else Inl CastRange
     | _ \<Rightarrow> Inl CastRange)"

section \<open>Memory\<close>

text \<open>
  The arena is an array of bytes.  A byte of it is a known byte value, one of the four
  bytes of a stored \<open>float\<close> (the bit pattern of a float is not modelled), or undefined
  (fresh from the allocator).
\<close>

datatype cell = Byte u8 | FloatPart fval nat | Undef

definition float_cells :: "fval \<Rightarrow> cell list" where
  "float_cells v = [FloatPart v 0, FloatPart v 1, FloatPart v 2, FloatPart v 3]"

definition store_cells :: "cell list option \<Rightarrow> nat \<Rightarrow> cell list \<Rightarrow> fault + cell list option" where
  "store_cells buf off cs =
    (if cs = [] then Inr buf
     else case buf of
       None \<Rightarrow> Inl NullPointer
     | Some blk \<Rightarrow>
         if off + length cs \<le> length blk
         then Inr (Some (take off blk @ cs @ drop (off + length cs) blk))
         else Inl OutOfBounds)"

text \<open>Reading \<open>n\<close> elements at index \<open>off\<close> of an array in the caller's memory.\<close>

definition load_range :: "'a list \<Rightarrow> nat \<Rightarrow> nat \<Rightarrow> fault + 'a list" where
  "load_range xs off n =
    (if n = 0 then Inr []
     else if off + n \<le> length xs then Inr (take n (drop off xs)) else Inl OutOfBounds)"

definition load_elem :: "'a list \<Rightarrow> nat \<Rightarrow> fault + 'a" where
  "load_elem xs i = (if i < length xs then Inr (xs ! i) else Inl OutOfBounds)"

text \<open>The float stored at float index \<open>i\<close> of a block, if one was stored there whole.\<close>

definition load_f32 :: "cell list \<Rightarrow> nat \<Rightarrow> fval option" where
  "load_f32 blk i =
    (if 4 * i + 4 \<le> length blk
     then (case blk ! (4 * i) of
             FloatPart v k \<Rightarrow> if take 4 (drop (4 * i) blk) = float_cells v then Some v else None
           | _ \<Rightarrow> None)
     else None)"

definition store_f32 :: "cell list option \<Rightarrow> nat \<Rightarrow> fval \<Rightarrow> fault + cell list option" where
  "store_f32 buf i v = store_cells buf (4 * i) (float_cells v)"

text \<open>
  \<open>memcpy\<close> of \<open>nbytes\<close> bytes from float index \<open>soff\<close> of a caller's array to float index
  \<open>doff\<close> of the arena.  The byte count is always a multiple of four here.  A copy of no
  bytes touches no memory.
\<close>

definition memcpy_f32 ::
  "cell list option \<Rightarrow> nat \<Rightarrow> fval list \<Rightarrow> nat \<Rightarrow> nat \<Rightarrow> fault + cell list option" where
  "memcpy_f32 buf doff src soff nbytes =
    (case load_range src soff (nbytes div 4) of
       Inl e \<Rightarrow> Inl e
     | Inr vs \<Rightarrow> store_cells buf (4 * doff) (concat (map float_cells vs)))"

text \<open>Counting loops \<open>for (i = start; i < n; i++)\<close> whose body may fault.\<close>

function for_loop :: "nat \<Rightarrow> nat \<Rightarrow> (nat \<Rightarrow> 's \<Rightarrow> fault + 's) \<Rightarrow> 's \<Rightarrow> fault + 's" where
  "for_loop i n body s =
    (if i < n
     then (case body i s of Inl e \<Rightarrow> Inl e | Inr s' \<Rightarrow> for_loop (i + 1) n body s')
     else Inr s)"
  by pat_completeness auto
termination
  by (relation "measure (\<lambda>(i, n, body, s). n - i)") auto

declare for_loop.simps [simp del]

section \<open>Data model\<close>

text \<open>The 44-byte header of a canonical PCM WAV file (a packed, little-endian struct).\<close>

record WAVHeader =
  riff :: "u8 list"
  file_size :: u32
  wave :: "u8 list"
  fmt :: "u8 list"
  fmt_size :: u32
  audio_format :: u16
  num_channels :: u16
  sample_rate :: u32
  byte_rate :: u32
  block_align :: u16
  bits_per_sample :: u16
  data :: "u8 list"
  data_size :: u32

text \<open>
  The descriptor of a float buffer.  A descriptor that a call reads is given together with
  the floats its \<open>data\<close> pointer addresses in the caller's memory (\<open>'d\<close> is \<open>fval list\<close>;
  reading past that array is a fault); in a descriptor that a call fills in, \<open>data\<close> is
  the pointer value written (\<open>'d\<close> is \<open>fptr\<close>).
\<close>

datatype fptr = NullPtr | ArenaPtr | HostPtr nat

record 'd AudioBuffer =
  data :: 'd
  length_frames :: u32   \<comment> \<open>the field \<open>length\<close>\<close>
  num_channels :: u16
  sample_rate :: u32

text \<open>The arena: \<open>buffer\<close> is \<open>None\<close> for the null pointer; \<open>size_used\<close> is the field \<open>size\<close>.\<close>

record MemoryBuffer =
  buffer :: "cell list option"
  size_used :: u32
  capacity :: u32

definition g_memory_buffer :: MemoryBuffer where
  "g_memory_buffer = \<lparr>buffer = None, size_used = 0, capacity = 0\<rparr>"

definition arena_ptr :: "MemoryBuffer \<Rightarrow> fptr" where
  "arena_ptr m = (case buffer m of None \<Rightarrow> NullPtr | Some blk \<Rightarrow> ArenaPtr)"

section \<open>The allocator\<close>

text \<open>
  Whether a request succeeds is decided outside the module: every operation takes the
  allocator's answer \<open>alloc_ok\<close> for the one request it can make.  A fresh block is
  undefined; \<open>realloc\<close> keeps the old contents up to the smaller of the two sizes, and on
  failure returns the null pointer and leaves the old block alone.
\<close>

definition malloc :: "bool \<Rightarrow> u32 \<Rightarrow> cell list option" where
  "malloc alloc_ok n = (if alloc_ok then Some (replicate (unat n) Undef) else None)"

definition realloc :: "bool \<Rightarrow> cell list option \<Rightarrow> u32 \<Rightarrow> cell list option" where
  "realloc alloc_ok old n =
    (if alloc_ok
     then (let b = (case old of None \<Rightarrow> [] | Some blk \<Rightarrow> blk)
           in Some (take (unat n) b @ replicate (unat n - length b) Undef))
     else None)"

text \<open>
  The block every producing operation repeats:
  \<^verbatim>\<open>if (buffer_size > capacity) { new_buffer = realloc(buffer, buffer_size);
       if (!new_buffer) return 0;  buffer = new_buffer;  capacity = buffer_size; }\<close>
  \<open>None\<close> stands for the early \<open>return 0\<close>.
\<close>

definition grow :: "bool \<Rightarrow> u32 \<Rightarrow> MemoryBuffer \<Rightarrow> MemoryBuffer option" where
  "grow alloc_ok buffer_size m =
    (if capacity m < buffer_size
     then (case realloc alloc_ok (buffer m) buffer_size of
             None \<Rightarrow> None
           | Some blk \<Rightarrow> Some (m\<lparr>buffer := Some blk, capacity := buffer_size\<rparr>))
     else Some m)"

section \<open>Arena lifecycle\<close>

definition wasm_init_memory :: "bool \<Rightarrow> u32 \<Rightarrow> MemoryBuffer \<Rightarrow> u32 \<times> MemoryBuffer" where
  "wasm_init_memory alloc_ok sz m =
    (let m1 = m\<lparr>buffer := malloc alloc_ok sz\<rparr>
     in if buffer m1 = None then (0, m1)
        else (sz, m1\<lparr>capacity := sz, size_used := 0\<rparr>))"

definition wasm_get_memory_buffer :: "MemoryBuffer \<Rightarrow> fptr" where
  "wasm_get_memory_buffer m = arena_ptr m"

definition wasm_cleanup :: "MemoryBuffer \<Rightarrow> MemoryBuffer" where
  "wasm_cleanup m = m\<lparr>buffer := None, size_used := 0, capacity := 0\<rparr>"

definition wasm_get_buffer_size :: "MemoryBuffer \<Rightarrow> u32" where
  "wasm_get_buffer_size m = size_used m"

section \<open>WAV encoding\<close>

definition le16 :: "u16 \<Rightarrow> u8 list" where
  "le16 w = [ucast w, ucast (drop_bit 8 w)]"

definition le32 :: "u32 \<Rightarrow> u8 list" where
  "le32 w = [ucast w, ucast (drop_bit 8 w), ucast (drop_bit 16 w), ucast (drop_bit 24 w)]"

definition header_bytes :: "WAVHeader \<Rightarrow> u8 list" where
  "header_bytes h =
     riff h @ le32 (file_size h) @ wave h @ fmt h @ le32 (fmt_size h)
     @ le16 (audio_format h) @ le16 (WAVHeader.num_channels h)
     @ le32 (WAVHeader.sample_rate h) @ le32 (byte_rate h) @ le16 (block_align h)
     @ le16 (bits_per_sample h) @ WAVHeader.data h @ le32 (data_size h)"

definition magic :: "string \<Rightarrow> u8 list" where
  "magic s = map of_char s"

text \<open>
  The quantisation of one sample (the body of the two encoding loops): the clamp
  \<open>fmaxf(-1.0f, fminf(1.0f, sample))\<close>, the scaling by \<open>0x8000\<close> or \<open>0x7FFF\<close>
  (\<open>0x800000\<close> or \<open>0x7FFFFF\<close>) in \<open>float\<close> arithmetic, and the cast to \<open>int16_t\<close>
  (\<open>int32_t\<close>).
\<close>

definition clamp_sample :: "fval \<Rightarrow> fval" where
  "clamp_sample sample = fmaxf (Finite (- 1)) (fminf (Finite 1) sample)"

definition quantize16 :: "fval \<Rightarrow> fault + int" where
  "quantize16 s =
    (let sample = clamp_sample s
     in f_to_int (- 32768) 32767
          (if flt sample (f_of_int binary32 0)
           then fmul binary32 sample (f_of_int binary32 0x8000)
           else fmul binary32 sample (f_of_int binary32 0x7FFF)))"

definition quantize24 :: "fval \<Rightarrow> fault + int" where
  "quantize24 s =
    (let sample = clamp_sample s
     in f_to_int (- 2147483648) 2147483647
          (if flt sample (f_of_int binary32 0)
           then fmul binary32 sample (f_of_int binary32 0x800000)
           else fmul binary32 sample (f_of_int binary32 0x7FFFFF)))"

definition encode16_step :: "fval list \<Rightarrow> nat \<Rightarrow> cell list option \<Rightarrow> fault + cell list option" where
  "encode16_step audio_data i buf =
    (case load_elem audio_data i of
       Inl e \<Rightarrow> Inl e
     | Inr s \<Rightarrow>
        (case quantize16 s of
           Inl e \<Rightarrow> Inl e
         | Inr q \<Rightarrow> store_cells buf (44 + 2 * i) (map Byte (le16 (word_of_int q)))))"

text \<open>The index expressions \<open>i * 3\<close>, \<open>i * 3 + 1\<close>, \<open>i * 3 + 2\<close> are computed in \<open>uint32_t\<close>.\<close>

definition encode24_step :: "fval list \<Rightarrow> nat \<Rightarrow> cell list option \<Rightarrow> fault + cell list option" where
  "encode24_step audio_data i buf =
    (case load_elem audio_data i of
       Inl e \<Rightarrow> Inl e
     | Inr s \<Rightarrow>
        (case quantize24 s of
           Inl e \<Rightarrow> Inl e
         | Inr q \<Rightarrow>
            (let int_sample = (word_of_int q :: u32); j = (of_nat i :: u32) in
             case store_cells buf (44 + unat (j * 3)) [Byte (ucast (int_sample AND 0xFF))] of
               Inl e \<Rightarrow> Inl e
             | Inr b1 \<Rightarrow>
                (case store_cells b1 (44 + unat (j * 3 + 1))
                        [Byte (ucast (signed_drop_bit 8 int_sample AND 0xFF))] of
                   Inl e \<Rightarrow> Inl e
                 | Inr b2 \<Rightarrow>
                     store_cells b2 (44 + unat (j * 3 + 2))
                       [Byte (ucast (signed_drop_bit 16 int_sample AND 0xFF))]))))"

text \<open>
  The header the encoder fills in.  \<open>block_align\<close> is a \<open>uint16_t\<close>: the product
  \<open>num_channels * bytes_per_sample\<close> is cut to 16 bits; \<open>data_size\<close>, \<open>total_size\<close> and
  \<open>byte_rate\<close> are computed in \<open>uint32_t\<close>.
\<close>

definition wav_header :: "u32 \<Rightarrow> u16 \<Rightarrow> u32 \<Rightarrow> u16 \<Rightarrow> WAVHeader" where
  "wav_header len n_channels s_rate bits =
    (let bytes_per_sample = bits div 8;
         block_al = n_channels * bytes_per_sample;
         d_size = len * ucast block_al;
         total_size = 44 + d_size
     in \<lparr>riff = magic ''RIFF'', file_size = total_size - 8,
         wave = magic ''WAVE'', fmt = magic ''fmt '', fmt_size = 16,
         audio_format = 1, WAVHeader.num_channels = n_channels,
         WAVHeader.sample_rate = s_rate,
         byte_rate = s_rate * ucast block_al, block_align = block_al,
         bits_per_sample = bits, WAVHeader.data = magic ''data'',
         data_size = d_size\<rparr>)"

definition wasm_audio_buffer_to_wav ::
  "bool \<Rightarrow> fval list \<Rightarrow> u32 \<Rightarrow> u16 \<Rightarrow> u32 \<Rightarrow> u16 \<Rightarrow> MemoryBuffer
     \<Rightarrow> fault + (u32 \<times> MemoryBuffer)" where
  "wasm_audio_buffer_to_wav alloc_ok audio_data len n_channels s_rate bits m =
    (let bytes_per_sample = bits div 8;
         block_al = n_channels * bytes_per_sample;
         d_size = len * ucast block_al;
         total_size = 44 + d_size
     in case grow alloc_ok total_size m of
          None \<Rightarrow> Inr (0, m)
        | Some m1 \<Rightarrow>
           (case store_cells (buffer m1) 0
                   (map Byte (header_bytes (wav_header len n_channels s_rate bits))) of
              Inl e \<Rightarrow> Inl e
            | Inr b0 \<Rightarrow>
               (case (if bits = 16
                      then for_loop 0 (unat (len * ucast n_channels)) (encode16_step audio_data) b0
                      else if bits = 24
                      then for_loop 0 (unat (len * ucast n_channels)) (encode24_step audio_data) b0
                      else Inr b0) of
                  Inl e \<Rightarrow> Inl e
                | Inr b1 \<Rightarrow> Inr (total_size, m1\<lparr>buffer := b1, size_used := total_size\<rparr>))))"

section \<open>WAV decoding\<close>

definition and_then :: "fault + 'a \<Rightarrow> ('a \<Rightarrow> fault + 'b) \<Rightarrow> fault + 'b" where
  "and_then r k = (case r of Inl e \<Rightarrow> Inl e | Inr x \<Rightarrow> k x)"

definition rd16 :: "u8 list \<Rightarrow> u16" where
  "rd16 bs = ucast (bs ! 0) OR push_bit 8 (ucast (bs ! 1))"

definition rd32 :: "u8 list \<Rightarrow> u32" where
  "rd32 bs = ucast (bs ! 0) OR push_bit 8 (ucast (bs ! 1))
             OR push_bit 16 (ucast (bs ! 2)) OR push_bit 24 (ucast (bs ! 3))"

text \<open>A field of the header overlaid on the caller's bytes, at its offset in the struct.\<close>

definition read_u16 :: "u8 list \<Rightarrow> nat \<Rightarrow> fault + u16" where
  "read_u16 bytes off = and_then (load_range bytes off 2) (\<lambda>bs. Inr (rd16 bs))"

definition read_u32 :: "u8 list \<Rightarrow> nat \<Rightarrow> fault + u32" where
  "read_u32 bytes off = and_then (load_range bytes off 4) (\<lambda>bs. Inr (rd32 bs))"

definition decode16_step :: "u8 list \<Rightarrow> nat \<Rightarrow> cell list option \<Rightarrow> fault + cell list option" where
  "decode16_step wav_data i buf =
    (case read_u16 wav_data (44 + 2 * i) of
       Inl e \<Rightarrow> Inl e
     | Inr w \<Rightarrow>
         store_f32 buf i
           (fdiv binary32 (f_of_int binary32 (sint w))
                          (f_of_int binary32 (if sint w < 0 then 0x8000 else 0x7FFF))))"

definition decode24_step :: "u8 list \<Rightarrow> nat \<Rightarrow> cell list option \<Rightarrow> fault + cell list option" where
  "decode24_step wav_data i buf =
    (let j = (of_nat i :: u32) in
     and_then (load_elem wav_data (44 + unat (j * 3))) (\<lambda>b0.
     and_then (load_elem wav_data (44 + unat (j * 3 + 1))) (\<lambda>b1.
     and_then (load_elem wav_data (44 + unat (j * 3 + 2))) (\<lambda>b2.
       let int_sample = sint ((ucast b0 :: u32) OR push_bit 8 (ucast b1) OR push_bit 16 (scast b2))
       in store_f32 buf i
            (fdiv binary32 (f_of_int binary32 int_sample)
                           (f_of_int binary32 (if int_sample < 0 then 0x800000 else 0x7FFFFF)))))))"

definition wasm_wav_to_audio_buffer ::
  "bool \<Rightarrow> u8 list \<Rightarrow> u32 \<Rightarrow> fptr AudioBuffer \<Rightarrow> MemoryBuffer
     \<Rightarrow> fault + (u32 \<times> fptr AudioBuffer \<times> MemoryBuffer)" where
  "wasm_wav_to_audio_buffer alloc_ok wav_data wav_size output m =
    (if wav_size < 44 then Inr (0, output, m)
     else
       and_then (load_range wav_data 0 4) (\<lambda>h_riff.
       if h_riff \<noteq> magic ''RIFF'' then Inr (0, output, m) else
       and_then (load_range wav_data 8 4) (\<lambda>h_wave.
       if h_wave \<noteq> magic ''WAVE'' then Inr (0, output, m) else
       and_then (load_range wav_data 12 4) (\<lambda>h_fmt.
       if h_fmt \<noteq> magic ''fmt '' then Inr (0, output, m) else
       and_then (read_u16 wav_data 34) (\<lambda>bits.
       and_then (read_u16 wav_data 22) (\<lambda>n_channels.
       and_then (read_u32 wav_data 24) (\<lambda>s_rate.
       and_then (read_u32 wav_data 40) (\<lambda>d_size.
         let bytes_per_sample = bits div 8;
             divisor = uint n_channels * uint bytes_per_sample
         in if divisor = 0 then Inl DivByZero
            else
              let num_samples = d_size div word_of_int divisor;
                  buffer_size = num_samples * ucast n_channels * 4
              in case grow alloc_ok buffer_size m of
                   None \<Rightarrow> Inr (0, output, m)
                 | Some m1 \<Rightarrow>
                    (let output1 = \<lparr>data = arena_ptr m1, length_frames = num_samples,
                                     num_channels = n_channels, sample_rate = s_rate\<rparr>
                     in case (if bits = 16
                              then for_loop 0 (unat (num_samples * ucast n_channels))
                                     (decode16_step wav_data) (buffer m1)
                              else if bits = 24
                              then for_loop 0 (unat (num_samples * ucast n_channels))
                                     (decode24_step wav_data) (buffer m1)
                              else Inr (buffer m1)) of
                          Inl e \<Rightarrow> Inl e
                        | Inr b \<Rightarrow>
                            Inr (num_samples, output1,
                                 m1\<lparr>buffer := b, size_used := buffer_size\<rparr>))))))))))"

section \<open>Slice\<close>

text \<open>
  The copy of channel \<open>ch\<close>:
  \<^verbatim>\<open>memcpy(slice_data + ch * slice_length,
         source->data + ch * source->length + start_sample, slice_length * sizeof(float))\<close>
  with \<open>ch * slice_length\<close>, \<open>ch * source->length\<close> and the byte count computed in 32 bits.
\<close>

definition wasm_slice_audio ::
  "bool \<Rightarrow> fval list AudioBuffer \<Rightarrow> u32 \<Rightarrow> u32 \<Rightarrow> MemoryBuffer
     \<Rightarrow> fault + (u32 \<times> MemoryBuffer)" where
  "wasm_slice_audio alloc_ok source start_sample slice_length0 m =
    (let slice_length =
           (if length_frames source < start_sample + slice_length0
            then length_frames source - start_sample else slice_length0);
         buffer_size = slice_length * ucast (num_channels source) * 4
     in case grow alloc_ok buffer_size m of
          None \<Rightarrow> Inr (0, m)
        | Some m1 \<Rightarrow>
           (case for_loop 0 (unat (num_channels source))
                   (\<lambda>ch buf. memcpy_f32 buf (unat (of_nat ch * slice_length)) (data source)
                       (unat (of_nat ch * length_frames source) + unat start_sample)
                       (unat (slice_length * 4)))
                   (buffer m1) of
              Inl e \<Rightarrow> Inl e
            | Inr b \<Rightarrow> Inr (slice_length, m1\<lparr>buffer := b, size_used := buffer_size\<rparr>)))"

section \<open>Merge\<close>

text \<open>
  The first loop sums the lengths and returns early (\<open>None\<close>) at the first descriptor whose
  channel count or sample rate differs from those of \<open>buffers[0]\<close>.
\<close>

function merge_total ::
  "fval list AudioBuffer list \<Rightarrow> nat \<Rightarrow> nat \<Rightarrow> u16 \<Rightarrow> u32 \<Rightarrow> u32 \<Rightarrow> fault + u32 option" where
  "merge_total buffers i n n_channels s_rate total_length =
    (if i < n
     then (case load_elem buffers i of
             Inl e \<Rightarrow> Inl e
           | Inr b \<Rightarrow>
               if num_channels b \<noteq> n_channels \<or> sample_rate b \<noteq> s_rate then Inr None
               else merge_total buffers (i + 1) n n_channels s_rate
                      (total_length + length_frames b))
     else Inr (Some total_length))"
  by pat_completeness auto
termination
  by (relation "measure (\<lambda>(buffers, i, n, n_channels, s_rate, total_length). n - i)") auto

declare merge_total.simps [simp del]

text \<open>
  One round of the second loop, on the pair of the arena block and \<open>offset\<close>: every channel
  of \<open>buffers[i]\<close> is copied to \<open>output->data + ch * total_length + offset\<close>.
\<close>

definition merge_copy_step ::
  "fval list AudioBuffer list \<Rightarrow> u16 \<Rightarrow> u32 \<Rightarrow> nat \<Rightarrow> cell list option \<times> u32
     \<Rightarrow> fault + (cell list option \<times> u32)" where
  "merge_copy_step buffers n_channels total_length i st =
    (case st of (buf, offset) \<Rightarrow>
       (case load_elem buffers i of
          Inl e \<Rightarrow> Inl e
        | Inr b \<Rightarrow>
           (case for_loop 0 (unat n_channels)
                   (\<lambda>ch bf. memcpy_f32 bf (unat (of_nat ch * total_length) + unat offset) (data b)
                       (unat (of_nat ch * length_frames b)) (unat (length_frames b * 4)))
                   buf of
              Inl e \<Rightarrow> Inl e
            | Inr buf' \<Rightarrow> Inr (buf', offset + length_frames b))))"

definition wasm_merge_audio_buffers ::
  "bool \<Rightarrow> fval list AudioBuffer list \<Rightarrow> u32 \<Rightarrow> fptr AudioBuffer \<Rightarrow> MemoryBuffer
     \<Rightarrow> fault + (u32 \<times> fptr AudioBuffer \<times> MemoryBuffer)" where
  "wasm_merge_audio_buffers alloc_ok buffers num_buffers output m =
    (if num_buffers = 0 then Inr (0, output, m)
     else
       case load_elem buffers 0 of
         Inl e \<Rightarrow> Inl e
       | Inr b0 \<Rightarrow>
          (let n_channels = num_channels b0; s_rate = sample_rate b0
           in case merge_total buffers 0 (unat num_buffers) n_channels s_rate 0 of
                Inl e \<Rightarrow> Inl e
              | Inr None \<Rightarrow> Inr (0, output, m)
              | Inr (Some total_length) \<Rightarrow>
                 (let buffer_size = total_length * ucast n_channels * 4
                  in case grow alloc_ok buffer_size m of
                       None \<Rightarrow> Inr (0, output, m)
                     | Some m1 \<Rightarrow>
                        (let output1 = \<lparr>data = arena_ptr m1, length_frames = total_length,
                                         num_channels = n_channels, sample_rate = s_rate\<rparr>
                         in case for_loop 0 (unat num_buffers)
                                   (merge_copy_step buffers n_channels total_length)
                                   (buffer m1, 0) of
                              Inl e \<Rightarrow> Inl e
                            | Inr (b, offset) \<Rightarrow>
                                Inr (total_length, output1,
                                     m1\<lparr>buffer := b, size_used := buffer_size\<rparr>)))))"

section \<open>Linear resampling\<close>

text \<open>
  One output frame of one channel; \<open>src\<close> and \<open>dst\<close> are the float indices at which the
  channel starts in the source array and in the arena.  The arithmetic is in \<open>double\<close>,
  the result is converted to \<open>float\<close>.
\<close>

definition resample_step ::
  "fval list \<Rightarrow> u32 \<Rightarrow> fval \<Rightarrow> nat \<Rightarrow> nat \<Rightarrow> nat \<Rightarrow> cell list option
     \<Rightarrow> fault + cell list option" where
  "resample_step src_data len ratio src dst i buf =
    (let src_pos = fdiv binary64 (f_of_int binary64 (int i)) ratio
     in case f_to_int 0 4294967295 src_pos of
          Inl e \<Rightarrow> Inl e
        | Inr k \<Rightarrow>
           (let src_idx = (word_of_int k :: u32);
                frac = fsub binary64 src_pos (f_of_int binary64 (uint src_idx))
            in if len - 1 \<le> src_idx
               then (case load_elem src_data (src + unat (len - 1)) of
                       Inl e \<Rightarrow> Inl e
                     | Inr v \<Rightarrow> store_f32 buf (dst + i) v)
               else
                 (case load_elem src_data (src + unat src_idx) of
                    Inl e \<Rightarrow> Inl e
                  | Inr a \<Rightarrow>
                     (case load_elem src_data (src + unat (src_idx + 1)) of
                        Inl e \<Rightarrow> Inl e
                      | Inr b \<Rightarrow>
                          store_f32 buf (dst + i)
                            (f_convert binary32
                               (fadd binary64
                                  (fmul binary64 (f_convert binary64 a)
                                     (fsub binary64 (f_of_int binary64 1) frac))
                                  (fmul binary64 (f_convert binary64 b) frac)))))))"

definition wasm_resample_audio ::
  "bool \<Rightarrow> fval list AudioBuffer \<Rightarrow> u32 \<Rightarrow> fptr AudioBuffer \<Rightarrow> MemoryBuffer
     \<Rightarrow> fault + (u32 \<times> fptr AudioBuffer \<times> MemoryBuffer)" where
  "wasm_resample_audio alloc_ok source target_sample_rate output m =
    (if sample_rate source = target_sample_rate then Inr (length_frames source, output, m)
     else
       let ratio = fdiv binary64 (f_of_int binary64 (uint target_sample_rate))
                                 (f_of_int binary64 (uint (sample_rate source)))
       in case f_to_int 0 4294967295
                 (fmul binary64 (f_of_int binary64 (uint (length_frames source))) ratio) of
            Inl e \<Rightarrow> Inl e
          | Inr t \<Rightarrow>
             (let target_length = (word_of_int t :: u32);
                  buffer_size = target_length * ucast (num_channels source) * 4
              in case grow alloc_ok buffer_size m of
                   None \<Rightarrow> Inr (0, output, m)
                 | Some m1 \<Rightarrow>
                    (let output1 = \<lparr>data = arena_ptr m1, length_frames = target_length,
                                     num_channels = num_channels source,
                                     sample_rate = target_sample_rate\<rparr>
                     in case for_loop 0 (unat (num_channels source))
                               (\<lambda>ch buf. for_loop 0 (unat target_length)
                                   (resample_step (data source) (length_frames source) ratio
                                      (unat (of_nat ch * length_frames source))
                                      (unat (of_nat ch * target_length)))
                                   buf)
                               (buffer m1) of
                          Inl e \<Rightarrow> Inl e
                        | Inr b \<Rightarrow>
                            Inr (target_length, output1,
                                 m1\<lparr>buffer := b, size_used := buffer_size\<rparr>))))"

section \<open>Gain\<close>

definition wasm_adjust_volume ::
  "fval list AudioBuffer \<Rightarrow> fval \<Rightarrow> fault + fval list AudioBuffer" where
  "wasm_adjust_volume buf volume =
    (case for_loop 0 (unat (length_frames buf * ucast (num_channels buf)))
            (\<lambda>i d. case load_elem d i of
                      Inl e \<Rightarrow> Inl e
                    | Inr v \<Rightarrow>
                        Inr (d[i := fmaxf (Finite (- 1))
                                      (fminf (Finite 1) (fmul binary32 v volume))]))
            (data buf) of
       Inl e \<Rightarrow> Inl e
     | Inr d \<Rightarrow> Inr (buf\<lparr>data := d\<rparr>))"

section \<open>Crossfade\<close>

text \<open>
  Frame \<open>i\<close> of the mixed region, for every channel:
  \<^verbatim>\<open>fade_out = (float)i / fade_length;  fade_in = 1.0f - fade_out;
   dst[0] = src1[0] * fade_out + src2[0] * fade_in;\<close>
\<close>

definition cross_fade_step ::
  "fval list AudioBuffer \<Rightarrow> fval list AudioBuffer \<Rightarrow> u32 \<Rightarrow> u32 \<Rightarrow> u16 \<Rightarrow> nat
     \<Rightarrow> cell list option \<Rightarrow> fault + cell list option" where
  "cross_fade_step buffer1 buffer2 fade_length total_length n_channels i buf =
    (let fade_out = fdiv binary32 (f_of_int binary32 (int i))
                                  (f_of_int binary32 (uint fade_length));
         fade_in = fsub binary32 (Finite 1) fade_out
     in for_loop 0 (unat n_channels)
          (\<lambda>ch bf.
             case load_elem (data buffer1)
                    (unat (of_nat ch * length_frames buffer1)
                     + unat (length_frames buffer1 - fade_length) + i) of
               Inl e \<Rightarrow> Inl e
             | Inr s1 \<Rightarrow>
                (case load_elem (data buffer2) (unat (of_nat ch * length_frames buffer2) + i) of
                   Inl e \<Rightarrow> Inl e
                 | Inr s2 \<Rightarrow>
                     store_f32 bf
                       (unat (of_nat ch * total_length)
                        + unat (length_frames buffer1 - fade_length) + i)
                       (fadd binary32 (fmul binary32 s1 fade_out) (fmul binary32 s2 fade_in))))
          buf)"

definition wasm_cross_fade ::
  "bool \<Rightarrow> fval list AudioBuffer \<Rightarrow> fval list AudioBuffer \<Rightarrow> u32 \<Rightarrow> fptr AudioBuffer
     \<Rightarrow> MemoryBuffer \<Rightarrow> fault + (u32 \<times> fptr AudioBuffer \<times> MemoryBuffer)" where
  "wasm_cross_fade alloc_ok buffer1 buffer2 fade_length output m =
    (let total_length = length_frames buffer1 + length_frames buffer2 - fade_length;
         n_channels = num_channels buffer1;
         buffer_size = total_length * ucast n_channels * 4
     in case grow alloc_ok buffer_size m of
          None \<Rightarrow> Inr (0, output, m)
        | Some m1 \<Rightarrow>
           (let output1 = \<lparr>data = arena_ptr m1, length_frames = total_length,
                            num_channels = n_channels, sample_rate = sample_rate buffer1\<rparr>
            in
              and_then (for_loop 0 (unat n_channels)
                 (\<lambda>ch bf. memcpy_f32 bf (unat (of_nat ch * total_length)) (data buffer1)
                     (unat (of_nat ch * length_frames buffer1))
                     (unat ((length_frames buffer1 - fade_length) * 4)))
                 (buffer m1)) (\<lambda>b1.
              and_then (for_loop 0 (unat fade_length)
                 (cross_fade_step buffer1 buffer2 fade_length total_length n_channels) b1) (\<lambda>b2.
              let offset = length_frames buffer1 - fade_length + fade_length in
              and_then (for_loop 0 (unat n_channels)
                 (\<lambda>ch bf. memcpy_f32 bf (unat (of_nat ch * total_length) + unat offset)
                     (data buffer2)
                     (unat (of_nat ch * length_frames buffer2) + unat fade_length)
                     (unat ((length_frames buffer2 - fade_length) * 4)))
                 b2) (\<lambda>b3.
              Inr (total_length, output1, m1\<lparr>buffer := b3, size_used := buffer_size\<rparr>))))))"

section \<open>Reading the state\<close>

text \<open>The invariant of the arena: \<open>used \<le> capacity\<close>, and the storage is null iff \<open>capacity = 0\<close>.\<close>

definition arena_inv :: "MemoryBuffer \<Rightarrow> bool" where
  "arena_inv m = (size_used m \<le> capacity m \<and> ((buffer m = None) = (capacity m = 0)))"

text \<open>The block the arena points to has \<open>capacity\<close> bytes (none when the pointer is null).\<close>

definition arena_ok :: "MemoryBuffer \<Rightarrow> bool" where
  "arena_ok m = (case buffer m of None \<Rightarrow> capacity m = 0 | Some blk \<Rightarrow> length blk = unat (capacity m))"

text \<open>The first \<open>n\<close> floats of the arena, as the caller reads them after a call.\<close>

definition arena_floats :: "MemoryBuffer \<Rightarrow> nat \<Rightarrow> fval option list" where
  "arena_floats m n = (case buffer m of None \<Rightarrow> [] | Some blk \<Rightarrow> map (load_f32 blk) [0..<n])"

definition result_samples :: "nat \<Rightarrow> fault + (u32 \<times> 'o \<times> MemoryBuffer) \<Rightarrow> fval option list" where
  "result_samples n r = (case r of Inl e \<Rightarrow> [] | Inr (k, out, m) \<Rightarrow> arena_floats m n)"

text \<open>The value a call returns, when it returns.\<close>

definition returned :: "fault + (u32 \<times> 'r) \<Rightarrow> u32 option" where
  "returned r = (case r of Inl e \<Rightarrow> None | Inr (k, rest) \<Rightarrow> Some k)"

section \<open>The quantisation, in the words of the specification\<close>

text \<open>
  Clamping to \<open>[-1, 1]\<close>: a sample beyond an end of the interval (an infinity included)
  goes to that end.  (The code sends NaN to 1.)
\<close>

definition spec_clamp :: "fval \<Rightarrow> rat" where
  "spec_clamp s =
    (case s of Finite x \<Rightarrow> max (- 1) (min 1 x) | PInf \<Rightarrow> 1 | NInf \<Rightarrow> - 1 | NaN \<Rightarrow> 1)"

text \<open>
  The asymmetric scale for \<open>B\<close> bits in the words of the specification: a negative sample
  is multiplied by \<open>2^(B-1)\<close>, a non-negative one by \<open>2^(B-1) - 1\<close>, and the fraction is
  dropped (truncation toward zero).
\<close>

definition spec_quantize :: "nat \<Rightarrow> rat \<Rightarrow> int" where
  "spec_quantize B c =
    (if c < 0 then trunc (c * 2 ^ (B - 1)) else trunc (c * (2 ^ (B - 1) - 1)))"

text \<open>
  The same scale as the code computes it: the product is a \<open>float\<close> product, rounded to
  the nearest \<open>float\<close> before the fraction is dropped.
\<close>

definition float_quantize :: "nat \<Rightarrow> rat \<Rightarrow> int" where
  "float_quantize B c =
    (if c < 0 then trunc (round_to binary32 (c * 2 ^ (B - 1)))
     else trunc (round_to binary32 (c * (2 ^ (B - 1) - 1))))"

text \<open>A number is a value of the format when rounding leaves it as it is.\<close>

definition is_float :: "fformat \<Rightarrow> rat \<Rightarrow> bool" where
  "is_float f x = (round_to f x = x)"

text \<open>
  The bytes of a code in the file: two's complement, little-endian, two bytes at 16 bits
  and three at 24 bits; and the payload of the file for a list of samples.
\<close>

definition le24 :: "u32 \<Rightarrow> u8 list" where
  "le24 w = [ucast w, ucast (drop_bit 8 w), ucast (drop_bit 16 w)]"

definition code16 :: "fval \<Rightarrow> u8 list" where
  "code16 s = le16 (word_of_int (float_quantize 16 (spec_clamp s)))"

definition code24 :: "fval \<Rightarrow> u8 list" where
  "code24 s = le24 (word_of_int (float_quantize 24 (spec_clamp s)))"

definition pcm_payload :: "u16 \<Rightarrow> fval list \<Rightarrow> u8 list" where
  "pcm_payload bits samples =
    (if bits = 16 then concat (map code16 samples)
     else if bits = 24 then concat (map code24 samples)
     else [])"

text \<open>
  The block of the arena once it holds \<open>n\<close> bytes: the old block, cut or extended with
  undefined bytes to \<open>n\<close> bytes when the capacity was smaller.
\<close>

definition grown_block :: "MemoryBuffer \<Rightarrow> nat \<Rightarrow> cell list" where
  "grown_block m n =
    (let b = (case buffer m of None \<Rightarrow> [] | Some blk \<Rightarrow> blk)
     in if unat (capacity m) < n then take n b @ replicate (n - length b) Undef else b)"

text \<open>The size of the encoded file in the words of the specification.\<close>

definition spec_wav_size :: "u32 \<Rightarrow> u16 \<Rightarrow> u16 \<Rightarrow> nat" where
  "spec_wav_size len n_channels bits = 44 + unat len * unat n_channels * (unat bits div 8)"

text \<open>The float at float index \<open>i\<close> behind a pointer into the arena, and the size of its block.\<close>

definition loadf :: "cell list option \<Rightarrow> nat \<Rightarrow> fval option" where
  "loadf buf i = (case buf of None \<Rightarrow> None | Some blk \<Rightarrow> load_f32 blk i)"

definition blen :: "cell list option \<Rightarrow> nat" where
  "blen buf = (case buf of None \<Rightarrow> 0 | Some blk \<Rightarrow> length blk)"

text \<open>
  The merge in the words of the specification: the frame count of a descriptor, the output
  stride \<open>L\<close> (the sum of the lengths) and the offset of buffer \<open>k\<close> (the sum of the lengths
  before it).
\<close>

definition frames :: "'d AudioBuffer \<Rightarrow> nat" where
  "frames b = unat (length_frames b)"

definition merge_length :: "'d AudioBuffer list \<Rightarrow> nat" where
  "merge_length bs = sum_list (map frames bs)"

definition merge_offset :: "'d AudioBuffer list \<Rightarrow> nat \<Rightarrow> nat" where
  "merge_offset bs k = sum_list (map frames (take k bs))"

text \<open>
  The frame count of the resampler as the code computes it: the ratio \<open>target / source\<close>
  rounded to \<open>double\<close>, multiplied by the length, rounded to \<open>double\<close> again, and the
  fraction dropped.
\<close>

definition resample_ratio :: "u32 \<Rightarrow> u32 \<Rightarrow> rat" where
  "resample_ratio target rate = round_to binary64 (of_int (uint target) / of_int (uint rate))"

definition resample_length :: "u32 \<Rightarrow> u32 \<Rightarrow> u32 \<Rightarrow> int" where
  "resample_length len target rate =
     trunc (round_to binary64 (of_int (uint len) * resample_ratio target rate))"

text \<open>
  The frame count in the words of the specification: the floor of the exact rational
  \<open>length \<cdot> target / source\<close>.
\<close>

definition exact_length :: "u32 \<Rightarrow> u32 \<Rightarrow> u32 \<Rightarrow> int" where
  "exact_length len target rate =
     \<lfloor>of_int (uint len) * of_int (uint target) / of_int (uint rate) :: rat\<rfloor>"

section \<open>Evaluation of concrete calls\<close>

lemma floor_numeral_div_rat: "\<lfloor>numeral a / numeral b :: rat\<rfloor> = numeral a div numeral b"
  using floor_divide_of_int_eq [of "numeral a" "numeral b", where ?'a = rat] by simp

lemma floor_neg_numeral_div_rat:
  "\<lfloor>- (numeral a / numeral b) :: rat\<rfloor> = - numeral a div numeral b"
  using floor_divide_of_int_eq [of "- numeral a" "numeral b", where ?'a = rat] by simp

lemma floor_one_div_rat: "\<lfloor>1 / numeral b :: rat\<rfloor> = 1 div numeral b"
  using floor_divide_of_int_eq [of 1 "numeral b", where ?'a = rat] by simp

lemma floor_neg_one_div_rat: "\<lfloor>- (1 / numeral b) :: rat\<rfloor> = - 1 div numeral b"
  using floor_divide_of_int_eq [of "- 1" "numeral b", where ?'a = rat] by simp

lemma ceiling_numeral_div_rat:
  "\<lceil>numeral a / numeral b :: rat\<rceil> = - (- numeral a div numeral b)"
  unfolding ceiling_def using floor_neg_numeral_div_rat [of a b] by simp

lemma ceiling_neg_numeral_div_rat:
  "\<lceil>- (numeral a / numeral b) :: rat\<rceil> = - (numeral a div numeral b)"
  unfolding ceiling_def using floor_numeral_div_rat [of a b] by simp

lemma ceiling_one_div_rat: "\<lceil>1 / numeral b :: rat\<rceil> = - (- 1 div numeral b)"
  unfolding ceiling_def using floor_neg_one_div_rat [of b] by simp

lemma ceiling_neg_one_div_rat: "\<lceil>- (1 / numeral b) :: rat\<rceil> = - (1 div numeral b)"
  unfolding ceiling_def using floor_one_div_rat [of b] by simp

lemmas rat_eval =
  floor_numeral_div_rat floor_neg_numeral_div_rat floor_one_div_rat floor_neg_one_div_rat
  ceiling_numeral_div_rat ceiling_neg_numeral_div_rat ceiling_one_div_rat
  ceiling_neg_one_div_rat

lemmas float_eval =
  fround_def round_to_def qexp_def ilog2_def rne_def Let_def compute_bitlen binary32_def binary64_def
  fmul_def fdiv_def fadd_def fsub_def f_of_int_def f_convert_def f_to_int_def trunc_def
  fminf_def fmaxf_def rat_eval

lemmas mem_eval =
  store_cells_def load_range_def load_elem_def store_f32_def memcpy_f32_def float_cells_def
  grow_def realloc_def malloc_def arena_ptr_def g_memory_buffer_def and_then_def
  for_loop.simps word_less_nat_alt word_le_nat_alt

lemma replicate_numeral_eval: "replicate (numeral k) x = x # replicate (pred_numeral k) x"
  by (simp add: numeral_eq_Suc)

section \<open>Properties of rounding\<close>

lemma two_powi_nonneg_int: "0 \<le> k \<Longrightarrow> (2::rat) powi k = 2 ^ nat k"
  by (simp add: power_int_def)

lemma two_powi_pos [simp]: "0 < (2::rat) powi k"
  by (simp add: power_int_def)

lemma ilog2_lower_ge1:
  assumes "1 \<le> x"
  shows "2 powi (ilog2 x) \<le> x" and "x < 2 powi (ilog2 x + 1)"
proof -
  let ?n = "\<lfloor>x\<rfloor>"
  have n1: "1 \<le> ?n" using assms by simp
  then have n0: "0 < ?n" by simp
  have b: "2 ^ nat (bitlen ?n - 1) \<le> ?n" "?n < 2 ^ nat (bitlen ?n)"
    using bitlen_bounds [OF n0] by auto
  have bl: "1 \<le> bitlen ?n" using n0 by (simp add: bitlen_def floorlog_def)
  have il: "ilog2 x = bitlen ?n - 1" using assms by (simp add: ilog2_def)
  have "(2::rat) powi (ilog2 x) = of_int (2 ^ nat (bitlen ?n - 1))"
    using bl by (simp add: il two_powi_nonneg_int)
  also have "\<dots> \<le> of_int ?n" using b(1) by (simp only: of_int_le_iff)
  also have "\<dots> \<le> x" by simp
  finally show "2 powi (ilog2 x) \<le> x" .
  have "x < of_int (?n + 1)" by linarith
  also have "\<dots> \<le> of_int (2 ^ nat (bitlen ?n))" using b(2) by (simp only: of_int_le_iff)
  also have "\<dots> = (2::rat) powi (ilog2 x + 1)"
    using bl by (simp add: il two_powi_nonneg_int)
  finally show "x < 2 powi (ilog2 x + 1)" .
qed

lemma ilog2_bounds_lt1:
  assumes "0 < x" "x < 1"
  shows "2 powi (ilog2 x) \<le> x" and "x < 2 powi (ilog2 x + 1)"
proof -
  let ?y = "1 / x"
  let ?m = "\<lceil>?y\<rceil> - 1"
  have y1: "1 < ?y" using assms by simp
  have m1: "1 \<le> ?m" using y1 by (simp add: less_ceiling_iff)
  then have m0: "0 < ?m" by simp
  have b: "2 ^ nat (bitlen ?m - 1) \<le> ?m" "?m < 2 ^ nat (bitlen ?m)"
    using bitlen_bounds [OF m0] by auto
  have bl: "1 \<le> bitlen ?m" using m0 by (simp add: bitlen_def floorlog_def)
  have il: "ilog2 x = - bitlen ?m" using assms by (simp add: ilog2_def)
  have my: "of_int ?m < ?y" "?y \<le> of_int ?m + 1"
    using ceiling_correct [of ?y] by simp_all
  have "?y \<le> of_int (?m + 1)" using my(2) by simp
  also have "\<dots> \<le> of_int (2 ^ nat (bitlen ?m))" using b(2) by (simp only: of_int_le_iff)
  finally have up: "?y \<le> 2 ^ nat (bitlen ?m)" by simp
  have p1: "(2::rat) powi (ilog2 x) = 1 / 2 ^ nat (bitlen ?m)"
    using bl by (simp add: il power_int_def inverse_eq_divide power_one_over)
  show "2 powi (ilog2 x) \<le> x"
  proof -
    have "1 / 2 ^ nat (bitlen ?m) \<le> 1 / ?y"
      using up y1 by (intro divide_left_mono) (auto simp: assms)
    then show ?thesis using assms by (simp add: p1)
  qed
  have "(of_int (2 ^ nat (bitlen ?m - 1)) :: rat) \<le> of_int ?m"
    using b(1) by (simp only: of_int_le_iff)
  then have lo: "(2::rat) ^ nat (bitlen ?m - 1) < ?y" using my(1) by simp
  have p2: "(2::rat) powi (ilog2 x + 1) = 1 / 2 ^ nat (bitlen ?m - 1)"
  proof (cases "bitlen ?m = 1")
    case True
    then show ?thesis by (simp add: il)
  next
    case False
    then have "ilog2 x + 1 < 0" using bl il by simp
    moreover have "nat (- (ilog2 x + 1)) = nat (bitlen ?m - 1)" using il by simp
    ultimately show ?thesis by (simp add: power_int_def inverse_eq_divide power_one_over)
  qed
  show "x < 2 powi (ilog2 x + 1)"
  proof -
    have "1 / ?y < 1 / 2 ^ nat (bitlen ?m - 1)"
      using lo assms by (intro divide_strict_left_mono) auto
    then show ?thesis using assms by (simp add: p2)
  qed
qed

lemma ilog2_bounds:
  assumes "0 < x"
  shows "2 powi (ilog2 x) \<le> x" and "x < 2 powi (ilog2 x + 1)"
  using assms ilog2_lower_ge1 [of x] ilog2_bounds_lt1 [of x] by (cases "1 \<le> x"; simp)+

lemma two_powi_mono: "a \<le> b \<Longrightarrow> (2::rat) powi a \<le> 2 powi b"
  by (rule power_int_increasing) simp_all

lemma two_powi_less_cancel: "(2::rat) powi a < 2 powi b \<Longrightarrow> a < b"
  using two_powi_mono [of b a] by (cases "a < b") auto

lemma ilog2_less:
  assumes "0 < x" "x < 2 powi k"
  shows "ilog2 x < k"
proof -
  have "2 powi (ilog2 x) < (2::rat) powi k"
    using ilog2_bounds(1) [OF assms(1)] assms(2) by simp
  then show ?thesis by (rule two_powi_less_cancel)
qed

lemma ilog2_ge:
  assumes "0 < x" "2 powi k \<le> x"
  shows "k \<le> ilog2 x"
proof -
  have "(2::rat) powi k < 2 powi (ilog2 x + 1)"
    using ilog2_bounds(2) [OF assms(1)] assms(2) by simp
  then have "k < ilog2 x + 1" by (rule two_powi_less_cancel)
  then show ?thesis by simp
qed

lemma rne_floor_le: "\<lfloor>t\<rfloor> \<le> rne t"
  by (simp add: rne_def Let_def)

lemma rne_le_ceiling: "rne t \<le> \<lceil>t\<rceil>"
proof (cases "t = of_int \<lfloor>t\<rfloor>")
  case True
  then have "t - of_int \<lfloor>t\<rfloor> = 0" by simp
  then have "rne t = \<lfloor>t\<rfloor>" by (simp add: rne_def Let_def)
  then show ?thesis by (simp add: floor_le_ceiling)
next
  case False
  then have "\<lceil>t\<rceil> = \<lfloor>t\<rfloor> + 1" by (simp add: ceiling_altdef)
  then show ?thesis by (simp add: rne_def Let_def)
qed

lemma rne_le: "t \<le> of_int n \<Longrightarrow> rne t \<le> n"
proof -
  assume "t \<le> of_int n"
  then have "\<lceil>t\<rceil> \<le> n" by (simp add: ceiling_le_iff)
  then show ?thesis using rne_le_ceiling [of t] by linarith
qed

lemma rne_ge: "of_int n \<le> t \<Longrightarrow> n \<le> rne t"
proof -
  assume "of_int n \<le> t"
  then have "n \<le> \<lfloor>t\<rfloor>" by (simp add: le_floor_iff)
  then show ?thesis using rne_floor_le [of t] by linarith
qed

lemma rne_of_int [simp]: "rne (of_int n) = n"
  by (simp add: rne_def)

lemma rne_err: "\<bar>of_int (rne t) - t\<bar> \<le> 1 / 2"
proof -
  have "of_int \<lfloor>t\<rfloor> \<le> t" "t < of_int \<lfloor>t\<rfloor> + 1" by linarith+
  then show ?thesis by (auto simp: rne_def Let_def abs_le_iff)
qed

lemma round_to_le:
  assumes "x \<le> y" "y / 2 powi qexp f x = of_int n"
  shows "round_to f x \<le> y"
proof (cases "x = 0")
  case True
  then show ?thesis using assms by (simp add: round_to_def)
next
  case False
  let ?u = "(2::rat) powi qexp f x"
  have u: "0 < ?u" by simp
  have "x / ?u \<le> y / ?u" using assms(1) u by (simp add: divide_right_mono)
  then have "rne (x / ?u) \<le> n" using assms(2) by (simp add: rne_le)
  then have "(of_int (rne (x / ?u)) :: rat) \<le> of_int n" by (simp only: of_int_le_iff)
  then have "of_int (rne (x / ?u)) * ?u \<le> of_int n * ?u"
    using u by (simp add: mult_right_mono)
  also have "of_int n * ?u = y" using assms(2) u by (simp add: field_simps)
  finally show ?thesis using False by (simp add: round_to_def)
qed

lemma round_to_ge:
  assumes "y \<le> x" "y / 2 powi qexp f x = of_int n"
  shows "y \<le> round_to f x"
proof (cases "x = 0")
  case True
  then show ?thesis using assms by (simp add: round_to_def)
next
  case False
  let ?u = "(2::rat) powi qexp f x"
  have u: "0 < ?u" by simp
  have "y / ?u \<le> x / ?u" using assms(1) u by (simp add: divide_right_mono)
  then have "n \<le> rne (x / ?u)" using assms(2) by (simp add: rne_ge)
  then have "(of_int n :: rat) \<le> of_int (rne (x / ?u))" by (simp only: of_int_le_iff)
  then have "of_int n * ?u \<le> of_int (rne (x / ?u)) * ?u"
    using u by (simp add: mult_right_mono)
  moreover have "of_int n * ?u = y" using assms(2) u by (simp add: field_simps)
  ultimately show ?thesis using False by (simp add: round_to_def)
qed

text \<open>Below \<open>2^prec\<close> the unit in the last place is at most 1: integers are on the grid.\<close>

lemma qexp_le_0:
  assumes "\<bar>x\<bar> < 2 ^ prec f" "qmin f \<le> 0" "x \<noteq> 0"
  shows "qexp f x \<le> 0"
proof -
  have "\<bar>x\<bar> < 2 powi int (prec f)" using assms(1) by (simp add: power_int_def)
  then have "ilog2 \<bar>x\<bar> < int (prec f)" using assms(3) by (intro ilog2_less) auto
  then show ?thesis using assms(2) by (simp add: qexp_def)
qed

lemma int_on_grid:
  assumes "e \<le> 0"
  shows "of_int n / (2::rat) powi e = of_int (n * 2 ^ nat (- e))"
  using assms by (simp add: power_int_def inverse_eq_divide power_one_over field_simps)

lemma round_to_le_int:
  assumes "\<bar>x\<bar> < 2 ^ prec f" "qmin f \<le> 0" "x \<le> of_int n"
  shows "round_to f x \<le> of_int n"
proof (cases "x = 0")
  case True
  then show ?thesis using assms by (simp add: round_to_def)
next
  case False
  show ?thesis
    by (rule round_to_le [OF assms(3) int_on_grid [OF qexp_le_0 [OF assms(1,2) False]]])
qed

lemma round_to_ge_int:
  assumes "\<bar>x\<bar> < 2 ^ prec f" "qmin f \<le> 0" "of_int n \<le> x"
  shows "of_int n \<le> round_to f x"
proof (cases "x = 0")
  case True
  then show ?thesis using assms by (simp add: round_to_def)
next
  case False
  show ?thesis
    by (rule round_to_ge [OF assms(3) int_on_grid [OF qexp_le_0 [OF assms(1,2) False]]])
qed

lemma round_to_of_int:
  assumes "\<bar>of_int n :: rat\<bar> < 2 ^ prec f" "qmin f \<le> 0"
  shows "round_to f (of_int n) = of_int n"
  using round_to_le_int [OF assms order_refl] round_to_ge_int [OF assms order_refl] by simp

lemma fround_small:
  assumes "\<bar>x\<bar> < 2 ^ prec f" "qmin f \<le> 0" "(2::rat) ^ prec f < 2 powi (emax f + 1)"
  shows "fround f x = Finite (round_to f x)"
proof -
  have "x \<le> of_int (2 ^ prec f)" "of_int (- (2 ^ prec f)) \<le> x" using assms(1) by auto
  then have "round_to f x \<le> of_int (2 ^ prec f)" "of_int (- (2 ^ prec f)) \<le> round_to f x"
    using round_to_le_int [OF assms(1,2)] round_to_ge_int [OF assms(1,2)] by blast+
  then have "\<bar>round_to f x\<bar> \<le> 2 ^ prec f" by (simp add: abs_le_iff)
  then have "\<not> 2 powi (emax f + 1) \<le> \<bar>round_to f x\<bar>" using assms(3) by linarith
  then show ?thesis by (simp add: fround_def Let_def)
qed

lemma fround32_small: "\<bar>x\<bar> < 16777216 \<Longrightarrow> fround binary32 x = Finite (round_to binary32 x)"
  by (rule fround_small) (simp_all add: binary32_def)

lemma fround64_small:
  "\<bar>x\<bar> < 9007199254740992 \<Longrightarrow> fround binary64 x = Finite (round_to binary64 x)"
  by (rule fround_small) (simp_all add: binary64_def)

lemma round32_le_int:
  "\<bar>x\<bar> < 16777216 \<Longrightarrow> x \<le> of_int n \<Longrightarrow> round_to binary32 x \<le> of_int n"
  by (rule round_to_le_int) (simp_all add: binary32_def)

lemma round32_ge_int:
  "\<bar>x\<bar> < 16777216 \<Longrightarrow> of_int n \<le> x \<Longrightarrow> of_int n \<le> round_to binary32 x"
  by (rule round_to_ge_int) (simp_all add: binary32_def)

lemma round64_le_int:
  "\<bar>x\<bar> < 9007199254740992 \<Longrightarrow> x \<le> of_int n \<Longrightarrow> round_to binary64 x \<le> of_int n"
  by (rule round_to_le_int) (simp_all add: binary64_def)

lemma round64_ge_int:
  "\<bar>x\<bar> < 9007199254740992 \<Longrightarrow> of_int n \<le> x \<Longrightarrow> of_int n \<le> round_to binary64 x"
  by (rule round_to_ge_int) (simp_all add: binary64_def)

lemma f32_of_int: "\<bar>i\<bar> < 16777216 \<Longrightarrow> f_of_int binary32 i = Finite (of_int i)"
proof -
  assume a: "\<bar>i\<bar> < 16777216"
  then have b: "\<bar>of_int i :: rat\<bar> < 16777216"
    by (metis of_int_abs of_int_less_iff of_int_numeral)
  have "round_to binary32 (of_int i) = of_int i"
    using b by (intro round_to_of_int) (simp_all add: binary32_def)
  then show ?thesis using fround32_small [OF b] by (simp add: f_of_int_def)
qed

lemma f64_of_int: "\<bar>i\<bar> < 9007199254740992 \<Longrightarrow> f_of_int binary64 i = Finite (of_int i)"
proof -
  assume a: "\<bar>i\<bar> < 9007199254740992"
  then have b: "\<bar>of_int i :: rat\<bar> < 9007199254740992"
    by (metis of_int_abs of_int_less_iff of_int_numeral)
  have "round_to binary64 (of_int i) = of_int i"
    using b by (intro round_to_of_int) (simp_all add: binary64_def)
  then show ?thesis using fround64_small [OF b] by (simp add: f_of_int_def)
qed

lemma trunc_bounds:
  assumes "of_int a \<le> r" "r \<le> of_int b" "a \<le> 0" "0 \<le> b"
  shows "a \<le> trunc r" "trunc r \<le> b"
proof -
  have f: "a \<le> \<lfloor>r\<rfloor>" "\<lceil>r\<rceil> \<le> b"
    using assms by (simp_all add: le_floor_iff ceiling_le_iff)
  have g: "0 \<le> r \<Longrightarrow> \<lfloor>r\<rfloor> \<le> b" "r < 0 \<Longrightarrow> a \<le> \<lceil>r\<rceil>"
    using f floor_le_ceiling [of r] by linarith+
  show "a \<le> trunc r" using f g by (simp add: trunc_def)
  show "trunc r \<le> b" using f g by (simp add: trunc_def)
qed

lemma clamp_sample_spec: "clamp_sample s = Finite (spec_clamp s)"
  by (cases s) (auto simp: clamp_sample_def fminf_def fmaxf_def spec_clamp_def max_def min_def)

lemma spec_clamp_range: "- 1 \<le> spec_clamp s" "spec_clamp s \<le> 1"
  by (cases s; simp add: spec_clamp_def)+

text \<open>The scaled and rounded sample stays within the range of the scale.\<close>

lemma scaled_range:
  assumes "- 1 \<le> c" "c \<le> 1" "0 < n" "n < 16777216"
  shows "fmul binary32 (Finite c) (Finite (of_int n)) = Finite (round_to binary32 (c * of_int n))"
    and "of_int (- n) \<le> round_to binary32 (c * of_int n)"
    and "round_to binary32 (c * of_int n) \<le> of_int n"
    and "c < 0 \<Longrightarrow> round_to binary32 (c * of_int n) \<le> 0"
    and "0 \<le> c \<Longrightarrow> 0 \<le> round_to binary32 (c * of_int n)"
proof -
  have n: "(0::rat) < of_int n" "(of_int n :: rat) < 16777216" using assms(3,4) by simp_all
  have up: "c * of_int n \<le> of_int n" using assms(2) n(1) by (simp add: mult_le_cancel_right2)
  have lo: "of_int (- n) \<le> c * of_int n"
    using assms(1) n(1) mult_right_mono [of "- 1" c "of_int n"] by simp
  have ab: "\<bar>c * of_int n\<bar> < 16777216" using up lo n(2) by (simp add: abs_less_iff)
  show "fmul binary32 (Finite c) (Finite (of_int n)) = Finite (round_to binary32 (c * of_int n))"
    using fround32_small [OF ab] by (simp add: fmul_def)
  show "of_int (- n) \<le> round_to binary32 (c * of_int n)" by (rule round32_ge_int [OF ab lo])
  show "round_to binary32 (c * of_int n) \<le> of_int n" by (rule round32_le_int [OF ab up])
  show "round_to binary32 (c * of_int n) \<le> 0" if "c < 0"
  proof -
    have "c * of_int n \<le> of_int 0" using that n(1) by (simp add: mult_le_0_iff)
    from round32_le_int [OF ab this] show ?thesis by simp
  qed
  show "0 \<le> round_to binary32 (c * of_int n)" if "0 \<le> c"
  proof -
    have "of_int 0 \<le> c * of_int n" using that n(1) by simp
    from round32_ge_int [OF ab this] show ?thesis by simp
  qed
qed

lemma quantize16_spec:
  "quantize16 s = Inr (float_quantize 16 (spec_clamp s))"
  "- 32768 \<le> float_quantize 16 (spec_clamp s)" "float_quantize 16 (spec_clamp s) \<le> 32767"
proof -
  let ?c = "spec_clamp s"
  note r = spec_clamp_range [of s]
  note A = scaled_range [OF r, of 32768, simplified]
  note B = scaled_range [OF r, of 32767, simplified]
  have z: "f_of_int binary32 0 = Finite 0" "f_of_int binary32 32768 = Finite 32768"
    "f_of_int binary32 32767 = Finite 32767"
    using f32_of_int [of 0] f32_of_int [of 32768] f32_of_int [of 32767] by simp_all
  have sq: "float_quantize 16 ?c =
      (if ?c < 0 then trunc (round_to binary32 (?c * 32768))
       else trunc (round_to binary32 (?c * 32767)))"
    by (simp add: float_quantize_def)
  have neg: "- 32768 \<le> trunc (round_to binary32 (?c * 32768))"
            "trunc (round_to binary32 (?c * 32768)) \<le> 0" if "?c < 0"
    using trunc_bounds [of "- 32768" "round_to binary32 (?c * 32768)" 0] A(2) A(4) [OF that]
    by simp_all
  have pos: "0 \<le> trunc (round_to binary32 (?c * 32767))"
            "trunc (round_to binary32 (?c * 32767)) \<le> 32767" if "\<not> ?c < 0"
    using trunc_bounds [of 0 "round_to binary32 (?c * 32767)" 32767] B(3) B(5) that
    by simp_all
  show lo: "- 32768 \<le> float_quantize 16 ?c"
    using neg(1) pos(1) by (cases "?c < 0") (simp_all add: sq)
  show hi: "float_quantize 16 ?c \<le> 32767"
    using neg(2) pos(2) by (cases "?c < 0") (simp_all add: sq)
  show "quantize16 s = Inr (float_quantize 16 ?c)"
  proof (cases "?c < 0")
    case True
    then show ?thesis
      using A(1) neg [OF True]
      by (simp add: quantize16_def clamp_sample_spec z f_to_int_def sq)
  next
    case False
    then show ?thesis
      using B(1) pos [OF False]
      by (simp add: quantize16_def clamp_sample_spec z f_to_int_def sq)
  qed
qed

lemma quantize24_spec:
  "quantize24 s = Inr (float_quantize 24 (spec_clamp s))"
  "- 8388608 \<le> float_quantize 24 (spec_clamp s)" "float_quantize 24 (spec_clamp s) \<le> 8388607"
proof -
  let ?c = "spec_clamp s"
  note r = spec_clamp_range [of s]
  note A = scaled_range [OF r, of 8388608, simplified]
  note B = scaled_range [OF r, of 8388607, simplified]
  have z: "f_of_int binary32 0 = Finite 0" "f_of_int binary32 8388608 = Finite 8388608"
    "f_of_int binary32 8388607 = Finite 8388607"
    using f32_of_int [of 0] f32_of_int [of 8388608] f32_of_int [of 8388607] by simp_all
  have sq: "float_quantize 24 ?c =
      (if ?c < 0 then trunc (round_to binary32 (?c * 8388608))
       else trunc (round_to binary32 (?c * 8388607)))"
    by (simp add: float_quantize_def)
  have neg: "- 8388608 \<le> trunc (round_to binary32 (?c * 8388608))"
            "trunc (round_to binary32 (?c * 8388608)) \<le> 0" if "?c < 0"
    using trunc_bounds [of "- 8388608" "round_to binary32 (?c * 8388608)" 0] A(2) A(4) [OF that]
    by simp_all
  have pos: "0 \<le> trunc (round_to binary32 (?c * 8388607))"
            "trunc (round_to binary32 (?c * 8388607)) \<le> 8388607" if "\<not> ?c < 0"
    using trunc_bounds [of 0 "round_to binary32 (?c * 8388607)" 8388607] B(3) B(5) that
    by simp_all
  show lo: "- 8388608 \<le> float_quantize 24 ?c"
    using neg(1) pos(1) by (cases "?c < 0") (simp_all add: sq)
  show hi: "float_quantize 24 ?c \<le> 8388607"
    using neg(2) pos(2) by (cases "?c < 0") (simp_all add: sq)
  show "quantize24 s = Inr (float_quantize 24 ?c)"
  proof (cases "?c < 0")
    case True
    then show ?thesis
      using A(1) neg [OF True]
      by (simp add: quantize24_def clamp_sample_spec z f_to_int_def sq)
  next
    case False
    then show ?thesis
      using B(1) pos [OF False]
      by (simp add: quantize24_def clamp_sample_spec z f_to_int_def sq)
  qed
qed

lemma float_quantize_endpoints:
  "float_quantize 16 1 = 32767" "float_quantize 16 (- 1) = - 32768"
  "float_quantize 24 1 = 8388607" "float_quantize 24 (- 1) = - 8388608"
  by (simp_all add: float_quantize_def trunc_def round_to_def qexp_def ilog2_def rne_def
      compute_bitlen binary32_def Let_def)

text \<open>
  The rounded product is within one unit of the exact one: rounding is monotone and leaves
  the integers below \<open>2^24\<close> alone, so it never crosses two of them.
\<close>

lemma round_near_floor:
  assumes "\<bar>x\<bar> < 16777216" "0 \<le> x"
  shows "\<lfloor>x\<rfloor> \<le> trunc (round_to binary32 x)" "trunc (round_to binary32 x) \<le> \<lfloor>x\<rfloor> + 1"
proof -
  have lo: "of_int \<lfloor>x\<rfloor> \<le> round_to binary32 x"
    by (rule round32_ge_int [OF assms(1)]) simp
  have "x \<le> of_int (\<lfloor>x\<rfloor> + 1)" by linarith
  from round32_le_int [OF assms(1) this]
  have hi: "round_to binary32 x \<le> of_int (\<lfloor>x\<rfloor> + 1)" .
  have "0 \<le> \<lfloor>x\<rfloor>" using assms(2) by simp
  then have "(0::rat) \<le> of_int \<lfloor>x\<rfloor>" by simp
  then have nn: "0 \<le> round_to binary32 x" using lo by linarith
  show "\<lfloor>x\<rfloor> \<le> trunc (round_to binary32 x)" using lo nn by (simp add: trunc_def le_floor_iff)
  have "\<lfloor>round_to binary32 x\<rfloor> \<le> \<lfloor>x\<rfloor> + 1" using hi by (metis floor_mono floor_of_int)
  then show "trunc (round_to binary32 x) \<le> \<lfloor>x\<rfloor> + 1" using nn by (simp add: trunc_def)
qed

lemma round_near_ceiling:
  assumes "\<bar>x\<bar> < 16777216" "x < 0"
  shows "\<lceil>x\<rceil> - 1 \<le> trunc (round_to binary32 x)" "trunc (round_to binary32 x) \<le> \<lceil>x\<rceil>"
proof -
  have hi: "round_to binary32 x \<le> of_int \<lceil>x\<rceil>"
    by (rule round32_le_int [OF assms(1)]) simp
  have "of_int (\<lceil>x\<rceil> - 1) \<le> x" by linarith
  from round32_ge_int [OF assms(1) this]
  have lo: "of_int (\<lceil>x\<rceil> - 1) \<le> round_to binary32 x" .
  have "\<lceil>x\<rceil> \<le> 0" using assms(2) by (simp add: ceiling_le_iff)
  then have "(of_int \<lceil>x\<rceil> :: rat) \<le> 0" by simp
  then have np: "round_to binary32 x \<le> 0" using hi by linarith
  have c1: "\<lceil>round_to binary32 x\<rceil> \<le> \<lceil>x\<rceil>" using hi by (simp add: ceiling_le_iff)
  have c2: "\<lceil>x\<rceil> - 1 \<le> \<lceil>round_to binary32 x\<rceil>"
    using lo by (metis ceiling_mono ceiling_of_int)
  have z: "round_to binary32 x = 0 \<Longrightarrow> \<lceil>round_to binary32 x\<rceil> = 0 \<and> \<lfloor>round_to binary32 x\<rfloor> = 0"
    by simp
  show "\<lceil>x\<rceil> - 1 \<le> trunc (round_to binary32 x)"
    using c2 np z by (cases "round_to binary32 x = 0") (auto simp: trunc_def)
  show "trunc (round_to binary32 x) \<le> \<lceil>x\<rceil>"
    using c1 np z \<open>\<lceil>x\<rceil> \<le> 0\<close> by (cases "round_to binary32 x = 0") (auto simp: trunc_def)
qed

lemma scaled_small:
  assumes "- 1 \<le> (c::rat)" "c \<le> 1" "0 < n" "n < 16777216"
  shows "\<bar>c * of_int n\<bar> < 16777216"
proof -
  have n: "(0::rat) < of_int n" "(of_int n :: rat) < 16777216" using assms(3,4) by simp_all
  have up: "c * of_int n \<le> of_int n"
    using assms(2) n(1) by (simp add: mult_le_cancel_right2)
  have lo: "of_int (- n) \<le> c * of_int n"
    using assms(1) n(1) mult_right_mono [of "- 1" c "of_int n"] by simp
  show ?thesis using up lo n(2) by (simp add: abs_less_iff)
qed

lemma float_quantize_near:
  assumes "- 1 \<le> c" "c \<le> 1" "B = 16 \<or> B = 24"
  shows "0 \<le> c \<Longrightarrow> spec_quantize B c \<le> float_quantize B c
                    \<and> float_quantize B c \<le> spec_quantize B c + 1"
    and "c < 0 \<Longrightarrow> spec_quantize B c - 1 \<le> float_quantize B c
                    \<and> float_quantize B c \<le> spec_quantize B c"
proof -
  have s16: "\<bar>c * 32768\<bar> < 16777216" "\<bar>c * 32767\<bar> < 16777216"
    using scaled_small [OF assms(1,2), of 32768] scaled_small [OF assms(1,2), of 32767] by simp_all
  have s24: "\<bar>c * 8388608\<bar> < 16777216" "\<bar>c * 8388607\<bar> < 16777216"
    using scaled_small [OF assms(1,2), of 8388608] scaled_small [OF assms(1,2), of 8388607]
    by simp_all
  show "spec_quantize B c \<le> float_quantize B c \<and> float_quantize B c \<le> spec_quantize B c + 1"
    if p: "0 \<le> c"
  proof -
    have nn: "0 \<le> c * 32767" "0 \<le> c * 8388607" using p by simp_all
    show ?thesis
      using assms(3) p round_near_floor [OF s16(2) nn(1)] round_near_floor [OF s24(2) nn(2)] nn
      by (auto simp: spec_quantize_def float_quantize_def trunc_def)
  qed
  show "spec_quantize B c - 1 \<le> float_quantize B c \<and> float_quantize B c \<le> spec_quantize B c"
    if p: "c < 0"
  proof -
    have ng: "c * 32768 < 0" "c * 8388608 < 0" using p by (simp_all add: mult_less_0_iff)
    show ?thesis
      using assms(3) p round_near_ceiling [OF s16(1) ng(1)] round_near_ceiling [OF s24(1) ng(2)] ng
      by (auto simp: spec_quantize_def float_quantize_def trunc_def)
  qed
qed

lemma float_quantize_exact:
  "is_float binary32 (c * (if c < 0 then 2 ^ (B - 1) else 2 ^ (B - 1) - 1))
   \<Longrightarrow> float_quantize B c = spec_quantize B c"
  by (auto simp: is_float_def float_quantize_def spec_quantize_def)

lemma sint_code16:
  assumes "- 32768 \<le> q" "q \<le> 32767"
  shows "sint (word_of_int q :: u16) = q"
  using assms by (simp add: sint_sbintrunc' signed_take_bit_int_eq_self)

section \<open>Loops, stores and the growth of the arena\<close>

lemma for_loop_invariant:
  assumes "i \<le> n" "I i s"
    and step: "\<And>j t. i \<le> j \<Longrightarrow> j < n \<Longrightarrow> I j t \<Longrightarrow> \<exists>t'. body j t = Inr t' \<and> I (Suc j) t'"
  shows "\<exists>t. for_loop i n body s = Inr t \<and> I n t"
  using assms
proof (induction "n - i" arbitrary: i s)
  case 0
  then have "i = n" by simp
  then show ?case using "0.prems"(2) by (simp add: for_loop.simps)
next
  case (Suc k)
  then have lt: "i < n" by linarith
  obtain t' where t': "body i s = Inr t'" "I (Suc i) t'"
    using Suc.prems(3) [of i s] lt Suc.prems(2) by auto
  have "\<exists>t. for_loop (Suc i) n body t' = Inr t \<and> I n t"
  proof (rule Suc.hyps(1))
    show "k = n - Suc i" using Suc.hyps(2) by simp
    show "Suc i \<le> n" using lt by simp
    show "I (Suc i) t'" by (rule t'(2))
    show "\<exists>t'. body j t = Inr t' \<and> I (Suc j) t'" if "Suc i \<le> j" "j < n" "I j t" for j t
      using Suc.prems(3) [of j t] that by simp
  qed
  then show ?case using lt t'(1) by (subst for_loop.simps) simp
qed

lemma store_cells_Some:
  "off + length cs \<le> length blk \<Longrightarrow>
   store_cells (Some blk) off cs = Inr (Some (take off blk @ cs @ drop (off + length cs) blk))"
  by (simp add: store_cells_def)

lemma length_splice:
  "off + length cs \<le> length blk \<Longrightarrow>
   length (take off blk @ cs @ drop (off + length cs) blk) = length blk"
  by simp

lemma take_splice:
  "k \<le> off \<Longrightarrow> off + length cs \<le> length blk \<Longrightarrow>
   take k (take off blk @ cs @ drop (off + length cs) blk) = take k blk"
  by simp

lemma grow_ok:
  assumes "arena_ok m" "alloc_ok \<or> n \<le> capacity m"
  shows "\<exists>m1. grow alloc_ok n m = Some m1 \<and> arena_ok m1 \<and> n \<le> capacity m1
           \<and> size_used m1 = size_used m
           \<and> capacity m1 = (if capacity m < n then n else capacity m)"
proof (cases "capacity m < n")
  case True
  then have ok: alloc_ok using assms(2) by auto
  have len: "length (case buffer m of None \<Rightarrow> [] | Some blk \<Rightarrow> blk) = unat (capacity m)"
    using assms(1) by (auto simp: arena_ok_def split: option.splits)
  have "unat (capacity m) < unat n" using True by (simp add: word_less_nat_alt)
  then show ?thesis
    using True ok len by (simp add: grow_def realloc_def arena_ok_def Let_def)
next
  case False
  then have "grow alloc_ok n m = Some m" by (simp add: grow_def)
  moreover have "n \<le> capacity m" using False by (simp add: not_less)
  ultimately show ?thesis using False assms(1) by simp
qed

lemma grow_fail: "\<not> alloc_ok \<Longrightarrow> capacity m < n \<Longrightarrow> grow alloc_ok n m = None"
  by (simp add: grow_def realloc_def)

lemma arena_ok_SomeD:
  "arena_ok m \<Longrightarrow> 0 < capacity m \<Longrightarrow> \<exists>blk. buffer m = Some blk \<and> length blk = unat (capacity m)"
  by (cases "buffer m") (auto simp: arena_ok_def)

lemma unat_ucast_16_32: "unat (ucast (x :: u16) :: u32) = unat x"
proof -
  have "unat x < 2 ^ 16" using unsigned_less [of x, where ?'a = nat] by simp
  then have "unat x < 2 ^ 32" by simp
  then show ?thesis by (simp add: unsigned_ucast_eq take_bit_nat_eq_self)
qed

lemma unat_mult_u32: "unat a * unat b < 2 ^ 32 \<Longrightarrow> unat (a * b :: u32) = unat a * unat b"
  using unat_mult_lem [of a b] by simp

lemma unat_mult_u16: "unat a * unat b < 2 ^ 16 \<Longrightarrow> unat (a * b :: u16) = unat a * unat b"
  using unat_mult_lem [of a b] by simp

lemma unat_add_u32: "unat a + unat b < 2 ^ 32 \<Longrightarrow> unat (a + b :: u32) = unat a + unat b"
  using unat_add_lem [of a b] by simp

lemma unat_of_nat_u32: "n < 2 ^ 32 \<Longrightarrow> unat (of_nat n :: u32) = n"
  by (simp add: unat_of_nat)

text \<open>The low byte of a word, and the bytes of its arithmetic shifts.\<close>

lemma mask_255: "(255 :: u32) = mask 8"
  by (simp add: mask_eq_exp_minus_1)

lemma low_byte_and: "(ucast ((w :: u32) AND 0xFF) :: u8) = ucast w"
  unfolding mask_255 by (rule bit_word_eqI) (auto simp: bit_simps)

lemma length_code16 [simp]: "length (code16 s) = 2"
  by (simp add: code16_def le16_def)

lemma length_code24 [simp]: "length (code24 s) = 3"
  by (simp add: code24_def le24_def)

lemma length_concat_code16 [simp]: "length (concat (map code16 xs)) = 2 * length xs"
  by (induction xs) simp_all

lemma length_concat_code24 [simp]: "length (concat (map code24 xs)) = 3 * length xs"
  by (induction xs) simp_all

text \<open>A store right behind a prefix of the block extends the prefix.\<close>

lemma store_behind_prefix:
  assumes "cs \<noteq> []" "length cs \<le> length r"
  shows "store_cells (Some (p @ r)) (length p) cs = Inr (Some ((p @ cs) @ drop (length cs) r))"
  using assms by (simp add: store_cells_def)

lemma encode16_payload:
  assumes "n \<le> length audio_data" "44 + 2 * n \<le> length b0"
  shows "for_loop 0 n (encode16_step audio_data) (Some b0)
         = Inr (Some (take 44 b0 @ map Byte (concat (map code16 (take n audio_data)))
                      @ drop (44 + 2 * n) b0))"
proof -
  let ?blk = "\<lambda>j. take 44 b0 @ map Byte (concat (map code16 (take j audio_data)))
                   @ drop (44 + 2 * j) b0"
  let ?I = "\<lambda>j buf. buf = Some (?blk j)"
  have "\<exists>t. for_loop 0 n (encode16_step audio_data) (Some b0) = Inr t \<and> ?I n t"
  proof (rule for_loop_invariant [where I = ?I])
    show "0 \<le> n" by simp
    show "?I 0 (Some b0)" by simp
    show "\<exists>t'. encode16_step audio_data j t = Inr t' \<and> ?I (Suc j) t'"
      if h: "0 \<le> j" "j < n" "?I j t" for j t
    proof -
      have jl: "j < length audio_data" using h(2) assms(1) by simp
      have ld: "load_elem audio_data j = Inr (audio_data ! j)"
        using jl by (simp add: load_elem_def)
      let ?p = "take 44 b0 @ map Byte (concat (map code16 (take j audio_data)))"
      let ?r = "drop (44 + 2 * j) b0"
      let ?cs = "map Byte (code16 (audio_data ! j))"
      have lp: "length ?p = 44 + 2 * j" using assms(2) h(2) jl by simp
      have lr: "length ?cs \<le> length ?r" using assms(2) h(2) by simp
      have ne: "?cs \<noteq> []" by (simp add: code16_def le16_def)
      have st: "store_cells (Some (?p @ ?r)) (44 + 2 * j) ?cs
                = Inr (Some ((?p @ ?cs) @ drop (length ?cs) ?r))"
        using store_behind_prefix [OF ne lr, of ?p] by (simp only: lp)
      have nx: "(?p @ ?cs) @ drop (length ?cs) ?r = ?blk (Suc j)"
        using jl by (simp add: take_Suc_conv_app_nth add.commute)
      have "encode16_step audio_data j t = Inr (Some (?blk (Suc j)))"
        using st h(3) unfolding nx [symmetric]
        by (simp add: encode16_step_def ld quantize16_spec(1) code16_def)
      then show ?thesis by simp
    qed
  qed
  then show ?thesis by simp
qed


lemma store_three:
  assumes "3 \<le> length r"
  shows "\<exists>b1 b2. store_cells (Some (p @ r)) (length p) [a] = Inr b1
           \<and> store_cells b1 (length p + 1) [b] = Inr b2
           \<and> store_cells b2 (length p + 2) [c] = Inr (Some ((p @ [a, b, c]) @ drop 3 r))"
proof -
  obtain x y z r' where r: "r = x # y # z # r'"
    using assms by (cases r; cases "tl r"; cases "tl (tl r)") auto
  show ?thesis by (simp add: r store_cells_def)
qed

lemma ucast_sdrop8: "(ucast (signed_drop_bit 8 (w :: u32)) :: u8) = ucast (drop_bit 8 w)"
  by (rule bit_word_eqI) (auto simp: bit_simps)

lemma ucast_sdrop16: "(ucast (signed_drop_bit 16 (w :: u32)) :: u8) = ucast (drop_bit 16 w)"
  by (rule bit_word_eqI) (auto simp: bit_simps)

lemma code24_bytes:
  "[ucast ((w :: u32) AND 0xFF), ucast (signed_drop_bit 8 w AND 0xFF),
    ucast (signed_drop_bit 16 w AND 0xFF)] = le24 w"
  by (simp add: le24_def low_byte_and ucast_sdrop8 ucast_sdrop16)

lemma encode24_payload:
  assumes "n \<le> length audio_data" "44 + 3 * n \<le> length b0" "3 * n < 2 ^ 32"
  shows "for_loop 0 n (encode24_step audio_data) (Some b0)
         = Inr (Some (take 44 b0 @ map Byte (concat (map code24 (take n audio_data)))
                      @ drop (44 + 3 * n) b0))"
proof -
  let ?blk = "\<lambda>j. take 44 b0 @ map Byte (concat (map code24 (take j audio_data)))
                   @ drop (44 + 3 * j) b0"
  let ?I = "\<lambda>j buf. buf = Some (?blk j)"
  have "\<exists>t. for_loop 0 n (encode24_step audio_data) (Some b0) = Inr t \<and> ?I n t"
  proof (rule for_loop_invariant [where I = ?I])
    show "0 \<le> n" by simp
    show "?I 0 (Some b0)" by simp
    show "\<exists>t'. encode24_step audio_data j t = Inr t' \<and> ?I (Suc j) t'"
      if h: "0 \<le> j" "j < n" "?I j t" for j t
    proof -
      have jl: "j < length audio_data" using h(2) assms(1) by simp
      have ld: "load_elem audio_data j = Inr (audio_data ! j)"
        using jl by (simp add: load_elem_def)
      have j3: "3 * j + 2 < 2 ^ 32" using h(2) assms(3) by simp
      have u0: "unat (of_nat j :: u32) = j" using j3 by (simp add: unat_of_nat_u32)
      have i0: "unat ((of_nat j :: u32) * 3) = 3 * j"
        using j3 u0 unat_mult_u32 [of "of_nat j" 3] by simp
      have i1: "unat ((of_nat j :: u32) * 3 + 1) = 3 * j + 1"
        using j3 i0 unat_add_u32 [of "of_nat j * 3" 1] by simp
      have i2: "unat ((of_nat j :: u32) * 3 + 2) = 3 * j + 2"
        using j3 i0 unat_add_u32 [of "of_nat j * 3" 2] by simp
      let ?p = "take 44 b0 @ map Byte (concat (map code24 (take j audio_data)))"
      let ?r = "drop (44 + 3 * j) b0"
      let ?w = "word_of_int (float_quantize 24 (spec_clamp (audio_data ! j))) :: u32"
      let ?a = "Byte (ucast (?w AND 0xFF))"
      let ?b = "Byte (ucast (signed_drop_bit 8 ?w AND 0xFF))"
      let ?c = "Byte (ucast (signed_drop_bit 16 ?w AND 0xFF))"
      have lp: "length ?p = 44 + 3 * j" using assms(2) h(2) jl by simp
      have lr: "3 \<le> length ?r" using assms(2) h(2) by simp
      from store_three [OF lr, of ?p ?a ?b ?c]
      obtain b1 b2 where st: "store_cells (Some (?p @ ?r)) (44 + 3 * j) [?a] = Inr b1"
        "store_cells b1 (44 + 3 * j + 1) [?b] = Inr b2"
        "store_cells b2 (44 + 3 * j + 2) [?c] = Inr (Some ((?p @ [?a, ?b, ?c]) @ drop 3 ?r))"
        unfolding lp by blast
      have cs: "[?a, ?b, ?c] = map Byte (code24 (audio_data ! j))"
        using code24_bytes [of ?w] by (simp add: code24_def le24_def)
      have nx: "(?p @ [?a, ?b, ?c]) @ drop 3 ?r = ?blk (Suc j)"
        unfolding cs using jl by (simp add: take_Suc_conv_app_nth add.commute)
      have tj: "t = Some (?p @ ?r)" using h(3) by simp
      have "encode24_step audio_data j t = Inr (Some (?blk (Suc j)))"
        unfolding nx [symmetric] tj
        using st
        by (simp add: encode24_step_def ld quantize24_spec(1) Let_def i0 i1 i2 add.assoc)
      then show ?thesis by simp
    qed
  qed
  then show ?thesis by simp
qed

lemma grow_block:
  assumes "arena_ok m" "alloc_ok \<or> n \<le> capacity m"
  shows "grow alloc_ok n m
         = Some \<lparr>buffer = (if capacity m < n then Some (grown_block m (unat n)) else buffer m),
                 size_used = size_used m, capacity = max (capacity m) n\<rparr>"
proof (cases "capacity m < n")
  case True
  then have ok: alloc_ok using assms(2) by auto
  have "unat (capacity m) < unat n" using True by (simp add: word_less_nat_alt)
  then show ?thesis
    using True ok by (simp add: grow_def realloc_def grown_block_def Let_def max_def)
next
  case False
  then show ?thesis by (simp add: grow_def max_def)
qed

section \<open>Copies of floats into the arena\<close>

lemma length_concat_float_cells [simp]: "length (concat (map float_cells vs)) = 4 * length vs"
  by (induction vs) (simp_all add: float_cells_def)


lemma length_float_cells [simp]: "length (float_cells v) = 4"
  by (simp add: float_cells_def)

lemma float_cells_nth: "k < 4 \<Longrightarrow> float_cells v ! k = FloatPart v k"
proof -
  assume "k < 4"
  then consider "k = 0" | "k = 1" | "k = 2" | "k = 3" by linarith
  then show ?thesis by cases (simp_all add: float_cells_def)
qed

lemma concat_float_cells_nth:
  "a < length vs \<Longrightarrow> k < 4 \<Longrightarrow> concat (map float_cells vs) ! (4 * a + k) = FloatPart (vs ! a) k"
proof (induction vs arbitrary: a)
  case Nil
  then show ?case by simp
next
  case (Cons v vs)
  show ?case
  proof (cases a)
    case 0
    then show ?thesis
      using Cons.prems(2) by (simp add: nth_append float_cells_nth)
  next
    case (Suc a')
    then have "a' < length vs" using Cons.prems(1) by simp
    from Cons.IH [OF this Cons.prems(2)] show ?thesis
      using Suc by (simp add: nth_append)
  qed
qed

lemma take4_drop:
  assumes "i + 4 \<le> length xs"
  shows "take 4 (drop i xs) = [xs ! i, xs ! (i + 1), xs ! (i + 2), xs ! (i + 3)]"
proof (rule nth_equalityI)
  show "length (take 4 (drop i xs)) = length [xs ! i, xs ! (i + 1), xs ! (i + 2), xs ! (i + 3)]"
    using assms by simp
  show "take 4 (drop i xs) ! k = [xs ! i, xs ! (i + 1), xs ! (i + 2), xs ! (i + 3)] ! k"
    if "k < length (take 4 (drop i xs))" for k
  proof -
    have "k < 4" using that by simp
    then consider "k = 0" | "k = 1" | "k = 2" | "k = 3" by linarith
    then show ?thesis using assms by cases simp_all
  qed
qed

lemma load_f32_Some_iff:
  "load_f32 blk i = Some v \<longleftrightarrow>
     4 * i + 4 \<le> length blk \<and> (\<forall>k<4. blk ! (4 * i + k) = FloatPart v k)"
proof (cases "4 * i + 4 \<le> length blk")
  case False
  then show ?thesis by (simp add: load_f32_def)
next
  case True
  have all4: "(\<forall>k<4. P k) \<longleftrightarrow> P 0 \<and> P 1 \<and> P 2 \<and> P (3::nat)" for P
  proof
    assume "\<forall>k<4. P k" then show "P 0 \<and> P 1 \<and> P 2 \<and> P 3" by simp
  next
    assume a: "P 0 \<and> P 1 \<and> P 2 \<and> P 3"
    show "\<forall>k<4. P k"
    proof (intro allI impI)
      fix k :: nat assume "k < 4"
      then consider "k = 0" | "k = 1" | "k = 2" | "k = 3" by linarith
      then show "P k" using a by cases simp_all
    qed
  qed
  show ?thesis
    using True
    by (cases "blk ! (4 * i)") (auto simp: load_f32_def take4_drop float_cells_def all4)
qed

lemma load_f32_cong:
  assumes "length a = length b" "\<And>k. k < 4 \<Longrightarrow> a ! (4 * i + k) = b ! (4 * i + k)"
  shows "load_f32 a i = load_f32 b i"
proof (cases "4 * i + 4 \<le> length a")
  case False
  then show ?thesis using assms(1) by (simp add: load_f32_def)
next
  case True
  have "take 4 (drop (4 * i) a) = take 4 (drop (4 * i) b)"
    using True assms(1) assms(2) [of 0] assms(2) [of 1] assms(2) [of 2] assms(2) [of 3]
    by (simp add: take4_drop)
  then show ?thesis
    using assms(1) assms(2) [of 0] by (cases "b ! (4 * i)") (simp_all add: load_f32_def)
qed

lemma splice_nth:
  assumes "off + length cs \<le> length blk" "i < length blk"
  shows "(take off blk @ cs @ drop (off + length cs) blk) ! i
         = (if off \<le> i \<and> i < off + length cs then cs ! (i - off) else blk ! i)"
  using assms by (auto simp: nth_append min_def)

lemma splice_load_outside:
  assumes room: "4 * d + length cs \<le> length blk" and lc: "length cs = 4 * n"
    and out: "\<not> (d \<le> x \<and> x < d + n)"
  shows "load_f32 (take (4 * d) blk @ cs @ drop (4 * d + length cs) blk) x = load_f32 blk x"
proof -
  let ?blk' = "take (4 * d) blk @ cs @ drop (4 * d + length cs) blk"
  have len: "length ?blk' = length blk" using room by simp
  show ?thesis
  proof (cases "4 * x + 4 \<le> length blk")
    case False
    then show ?thesis using len by (simp add: load_f32_def)
  next
    case True
    show ?thesis
    proof (rule load_f32_cong [OF len])
      fix k :: nat assume k: "k < 4"
      have a: "4 * x + k < length blk" using True k by simp
      have b: "\<not> (4 * d \<le> 4 * x + k \<and> 4 * x + k < 4 * d + length cs)"
        using out k lc by auto
      show "?blk' ! (4 * x + k) = blk ! (4 * x + k)"
        using splice_nth [OF room a] b by simp
    qed
  qed
qed

lemma splice_load_inside:
  assumes room: "4 * d + length cs \<le> length blk" and cs: "cs = concat (map float_cells vs)"
    and inside: "d \<le> x" "x < d + length vs"
  shows "load_f32 (take (4 * d) blk @ cs @ drop (4 * d + length cs) blk) x = Some (vs ! (x - d))"
proof -
  let ?blk' = "take (4 * d) blk @ cs @ drop (4 * d + length cs) blk"
  have lc: "length cs = 4 * length vs" by (simp add: cs)
  have len: "length ?blk' = length blk" using room by simp
  have in_blk: "4 * x + 4 \<le> length blk" using inside room lc by simp
  have cell: "?blk' ! (4 * x + k) = FloatPart (vs ! (x - d)) k" if k: "k < 4" for k
  proof -
    have a: "4 * x + k < length blk" using in_blk k by simp
    have b: "4 * d \<le> 4 * x + k \<and> 4 * x + k < 4 * d + length cs"
      using inside k lc by simp
    have "?blk' ! (4 * x + k) = cs ! (4 * x + k - 4 * d)"
      using splice_nth [OF room a] b by simp
    also have "4 * x + k - 4 * d = 4 * (x - d) + k" using inside(1) by linarith
    also have "cs ! (4 * (x - d) + k) = FloatPart (vs ! (x - d)) k"
      unfolding cs using inside k by (intro concat_float_cells_nth) simp_all
    finally show ?thesis .
  qed
  show ?thesis using cell in_blk len by (simp add: load_f32_Some_iff)
qed

lemma memcpy_f32_effect:
  assumes "s + n \<le> length src" "4 * (d + n) \<le> blen buf"
  shows "\<exists>buf'. memcpy_f32 buf d src s (4 * n) = Inr buf' \<and> blen buf' = blen buf
           \<and> (buf' = None) = (buf = None)
           \<and> (\<forall>x. loadf buf' x =
                  (if d \<le> x \<and> x < d + n then Some (src ! (s + (x - d))) else loadf buf x))"
proof (cases "n = 0")
  case True
  then show ?thesis by (auto simp: memcpy_f32_def load_range_def store_cells_def)
next
  case False
  then obtain blk where blk: "buf = Some blk" using assms(2) by (cases buf) (auto simp: blen_def)
  define vs where "vs = take n (drop s src)"
  define cs where "cs = concat (map float_cells vs)"
  have lv: "length vs = n" using assms(1) by (simp add: vs_def)
  have lc: "length cs = 4 * n" using lv by (simp add: cs_def)
  have room: "4 * d + length cs \<le> length blk" using assms(2) blk lc by (simp add: blen_def)
  define blk' where "blk' = take (4 * d) blk @ cs @ drop (4 * d + length cs) blk"
  have lr: "load_range src s (4 * n div 4) = Inr vs"
    using False assms(1) by (simp add: load_range_def vs_def)
  have st: "store_cells (Some blk) (4 * d) cs = Inr (Some blk')"
    unfolding blk'_def by (rule store_cells_Some [OF room])
  have run: "memcpy_f32 buf d src s (4 * n) = Inr (Some blk')"
    unfolding memcpy_f32_def lr blk using st by (simp add: cs_def)
  have len: "length blk' = length blk" using room by (simp add: blk'_def)
  have ld: "load_f32 blk' x = (if d \<le> x \<and> x < d + n then Some (src ! (s + (x - d))) else load_f32 blk x)"
    for x
  proof (cases "d \<le> x \<and> x < d + n")
    case True
    then have "load_f32 blk' x = Some (vs ! (x - d))"
      unfolding blk'_def using lv by (intro splice_load_inside [OF room cs_def]) simp_all
    moreover have "vs ! (x - d) = src ! (s + (x - d))"
    proof -
      have "x - d < n" using True by linarith
      then show ?thesis using assms(1) unfolding vs_def by (simp del: Nat.diff_add_assoc add_diff_assoc)
    qed
    ultimately show ?thesis using True by simp
  next
    case False
    have "load_f32 blk' x = load_f32 blk x"
      unfolding blk'_def by (rule splice_load_outside [OF room lc False])
    then show ?thesis using False by auto
  qed
  show ?thesis using run len ld blk by (simp add: blen_def loadf_def)
qed

section \<open>The two loops of the merge\<close>

lemma region_apart:
  fixes L :: nat
  assumes "j < l1" "o1 + l1 \<le> L" "o2 + l2 \<le> L"
    and "c1 \<noteq> c2 \<or> o1 + l1 \<le> o2 \<or> o2 + l2 \<le> o1"
  shows "\<not> (c2 * L + o2 \<le> c1 * L + o1 + j \<and> c1 * L + o1 + j < c2 * L + o2 + l2)"
proof -
  consider (lt) "c1 < c2" | (eq) "c1 = c2" | (gt) "c2 < c1" by linarith
  then show ?thesis
  proof cases
    case lt
    then have "Suc c1 * L \<le> c2 * L" by (intro mult_le_mono1) simp
    then have "c1 * L + L \<le> c2 * L" by simp
    then show ?thesis using assms(1,2) by linarith
  next
    case eq
    then show ?thesis using assms by auto
  next
    case gt
    then have "Suc c2 * L \<le> c1 * L" by (intro mult_le_mono1) simp
    then have "c2 * L + L \<le> c1 * L" by simp
    then show ?thesis using assms(3) by linarith
  qed
qed

lemma merge_offset_0 [simp]: "merge_offset bs 0 = 0"
  by (simp add: merge_offset_def)

lemma merge_offset_Suc:
  "k < length bs \<Longrightarrow> merge_offset bs (Suc k) = merge_offset bs k + frames (bs ! k)"
  by (simp add: merge_offset_def take_Suc_conv_app_nth)

lemma merge_offset_length [simp]: "merge_offset bs (length bs) = merge_length bs"
  by (simp add: merge_offset_def merge_length_def)

lemma merge_offset_mono: "k \<le> i \<Longrightarrow> merge_offset bs k \<le> merge_offset bs i"
proof -
  assume "k \<le> i"
  then have "take i bs = take k bs @ take (i - k) (drop k bs)"
    using take_add [of k "i - k" bs] by simp
  then show ?thesis by (simp add: merge_offset_def)
qed

lemma merge_offset_le: "merge_offset bs k \<le> merge_length bs"
proof (cases "k \<le> length bs")
  case True
  then show ?thesis using merge_offset_mono [of k "length bs" bs] by simp
next
  case False
  then show ?thesis by (simp add: merge_offset_def merge_length_def)
qed

lemma merge_offset_fits:
  "k < length bs \<Longrightarrow> merge_offset bs k + frames (bs ! k) \<le> merge_length bs"
  using merge_offset_le [of bs "Suc k"] by (simp add: merge_offset_Suc)

lemma unat_sum_list_u32:
  "sum_list (map unat ws) < 2 ^ 32 \<Longrightarrow> unat (sum_list ws :: u32) = sum_list (map unat ws)"
proof (induction ws)
  case Nil
  then show ?case by simp
next
  case (Cons w ws)
  then have "unat (sum_list ws) = sum_list (map unat ws)" by simp
  then show ?case using Cons.prems unat_add_u32 [of w "sum_list ws"] by simp
qed

lemma merge_total_all:
  assumes "n = length bs" "i \<le> n"
    and "\<forall>b\<in>set (drop i bs). num_channels b = C \<and> sample_rate b = R"
  shows "merge_total bs i n C R acc = Inr (Some (acc + sum_list (map length_frames (drop i bs))))"
  using assms
proof (induction "n - i" arbitrary: i acc)
  case 0
  then show ?case by (simp add: merge_total.simps)
next
  case (Suc d)
  then have lt: "i < length bs" by linarith
  have dr: "drop i bs = bs ! i # drop (Suc i) bs" using lt by (simp add: Cons_nth_drop_Suc)
  have here: "num_channels (bs ! i) = C" "sample_rate (bs ! i) = R"
    using Suc.prems(3) dr by simp_all
  have rest: "\<forall>b\<in>set (drop (Suc i) bs). num_channels b = C \<and> sample_rate b = R"
    using Suc.prems(3) dr by simp
  have "merge_total bs (Suc i) n C R (acc + length_frames (bs ! i))
        = Inr (Some (acc + length_frames (bs ! i) + sum_list (map length_frames (drop (Suc i) bs))))"
    using Suc.hyps(2) Suc.prems(1) lt rest by (intro Suc.hyps(1)) simp_all
  then show ?case
    using lt here Suc.prems(1)
    by (subst merge_total.simps) (simp add: load_elem_def dr add.assoc)
qed

lemma merge_total_mismatch:
  assumes "n = length bs" "i \<le> n"
    and "\<exists>b\<in>set (drop i bs). num_channels b \<noteq> C \<or> sample_rate b \<noteq> R"
  shows "merge_total bs i n C R acc = Inr None"
  using assms
proof (induction "n - i" arbitrary: i acc)
  case 0
  then show ?case by simp
next
  case (Suc d)
  then have lt: "i < length bs" by linarith
  have dr: "drop i bs = bs ! i # drop (Suc i) bs" using lt by (simp add: Cons_nth_drop_Suc)
  show ?case
  proof (cases "num_channels (bs ! i) \<noteq> C \<or> sample_rate (bs ! i) \<noteq> R")
    case True
    then show ?thesis
      using lt Suc.prems(1) by (subst merge_total.simps) (auto simp: load_elem_def)
  next
    case False
    then have rest: "\<exists>b\<in>set (drop (Suc i) bs). num_channels b \<noteq> C \<or> sample_rate b \<noteq> R"
      using Suc.prems(3) dr by auto
    have "merge_total bs (Suc i) n C R (acc + length_frames (bs ! i)) = Inr None"
      using Suc.hyps(2) Suc.prems(1) lt rest by (intro Suc.hyps(1)) simp_all
    then show ?thesis
      using lt False Suc.prems(1) by (subst merge_total.simps) (simp add: load_elem_def)
  qed
qed

lemma merge_channels:
  fixes b :: "fval list AudioBuffer" and total offset :: u32
  assumes wf: "C * frames b \<le> length (data b)"
    and fit: "unat offset + frames b \<le> unat total"
    and room: "4 * (C * unat total) \<le> blen buf"
    and small: "4 * (C * unat total) < 2 ^ 32" "C < 2 ^ 32"
  shows "\<exists>buf'. for_loop 0 C
            (\<lambda>ch bf. memcpy_f32 bf (unat (of_nat ch * total) + unat offset) (data b)
                (unat (of_nat ch * length_frames b)) (unat (length_frames b * 4))) buf = Inr buf'
          \<and> blen buf' = blen buf \<and> (buf' = None) = (buf = None)
          \<and> (\<forall>c<C. \<forall>j<frames b.
                loadf buf' (c * unat total + unat offset + j) = Some (data b ! (c * frames b + j)))
          \<and> (\<forall>x. (\<forall>c<C. \<not> (c * unat total + unat offset \<le> x
                              \<and> x < c * unat total + unat offset + frames b))
                \<longrightarrow> loadf buf' x = loadf buf x)"
proof -
  let ?L = "unat total" and ?o = "unat offset" and ?l = "frames b"
  let ?body = "\<lambda>ch bf. memcpy_f32 bf (unat (of_nat ch * total) + unat offset) (data b)
                (unat (of_nat ch * length_frames b)) (unat (length_frames b * 4))"
  let ?I = "\<lambda>c bf. blen bf = blen buf \<and> (bf = None) = (buf = None)
      \<and> (\<forall>c'<c. \<forall>j<?l. loadf bf (c' * ?L + ?o + j) = Some (data b ! (c' * ?l + j)))
      \<and> (\<forall>x. (\<forall>c'<c. \<not> (c' * ?L + ?o \<le> x \<and> x < c' * ?L + ?o + ?l)) \<longrightarrow> loadf bf x = loadf buf x)"
  have "\<exists>t. for_loop 0 C ?body buf = Inr t \<and> ?I C t"
  proof (rule for_loop_invariant [where I = ?I])
    show "0 \<le> C" by simp
    show "?I 0 buf" by simp
    show "\<exists>t'. ?body c bf = Inr t' \<and> ?I (Suc c) t'" if h: "0 \<le> c" "c < C" "?I c bf" for c bf
    proof -
      have lL: "?l \<le> ?L" using fit by simp
      have cC: "Suc c \<le> C" using h(2) by simp
      have cL: "Suc c * ?L \<le> C * ?L" using cC by (rule mult_le_mono1)
      have cl: "Suc c * ?l \<le> C * ?l" using cC by (rule mult_le_mono1)
      have CL: "C * ?l \<le> C * ?L" using lL by (rule mult_le_mono2)
      have uc: "unat (of_nat c :: u32) = c" using h(2) small(2) by (simp add: unat_of_nat_u32)
      have b1: "c * ?L < 2 ^ 32"
      proof -
        have "c * ?L \<le> Suc c * ?L" by simp
        then show ?thesis using cL small(1) by linarith
      qed
      have b2: "c * ?l < 2 ^ 32"
      proof -
        have "c * ?l \<le> Suc c * ?l" by simp
        then show ?thesis using cl CL small(1) by linarith
      qed
      have w1: "unat (of_nat c * total) = c * ?L"
        using unat_mult_u32 [of "of_nat c" total] b1 by (simp only: uc)
      have w2: "unat (of_nat c * length_frames b) = c * ?l"
        using unat_mult_u32 [of "of_nat c" "length_frames b"] b2 by (simp only: uc frames_def)
      have "1 * ?L \<le> C * ?L" using h(2) by (intro mult_le_mono1) simp
      then have "4 * ?l < 2 ^ 32" using lL small(1) by linarith
      then have w3: "unat (length_frames b * 4) = 4 * ?l"
        using unat_mult_u32 [of "length_frames b" 4] by (simp add: frames_def)
      have src_ok: "c * ?l + ?l \<le> length (data b)" using cl wf by simp
      have "c * ?L + ?o + ?l \<le> Suc c * ?L" using fit by simp
      then have dst_ok: "4 * (c * ?L + ?o + ?l) \<le> blen bf" using cL room h(3) by simp
      from memcpy_f32_effect [OF src_ok dst_ok]
      obtain bf' where bf': "memcpy_f32 bf (c * ?L + ?o) (data b) (c * ?l) (4 * ?l) = Inr bf'"
        "blen bf' = blen bf" "(bf' = None) = (bf = None)"
        "\<And>x. loadf bf' x = (if c * ?L + ?o \<le> x \<and> x < c * ?L + ?o + ?l
                             then Some (data b ! (c * ?l + (x - (c * ?L + ?o)))) else loadf bf x)"
        by auto
      have run: "?body c bf = Inr bf'" using bf'(1) by (simp add: w1 w2 w3)
      have new: "loadf bf' (c' * ?L + ?o + j) = Some (data b ! (c' * ?l + j))"
        if "c' < Suc c" "j < ?l" for c' j
      proof (cases "c' = c")
        case True
        have inside: "c * ?L + ?o \<le> c * ?L + ?o + j \<and> c * ?L + ?o + j < c * ?L + ?o + ?l"
          using that(2) by simp
        have "loadf bf' (c * ?L + ?o + j)
              = Some (data b ! (c * ?l + (c * ?L + ?o + j - (c * ?L + ?o))))"
          unfolding bf'(4) using inside by (rule if_P)
        then show ?thesis using True by simp
      next
        case False
        then have lt: "c' < c" using that(1) by simp
        have notin: "\<not> (c * ?L + ?o \<le> c' * ?L + ?o + j \<and> c' * ?L + ?o + j < c * ?L + ?o + ?l)"
          using False by (intro region_apart [OF that(2) fit fit]) simp
        have "loadf bf' (c' * ?L + ?o + j) = loadf bf (c' * ?L + ?o + j)"
          unfolding bf'(4) using notin by (rule if_not_P)
        also have "\<dots> = Some (data b ! (c' * ?l + j))" using h(3) lt that(2) by blast
        finally show ?thesis .
      qed
      have old: "loadf bf' x = loadf buf x"
        if "\<forall>c'<Suc c. \<not> (c' * ?L + ?o \<le> x \<and> x < c' * ?L + ?o + ?l)" for x
      proof -
        have notin: "\<not> (c * ?L + ?o \<le> x \<and> x < c * ?L + ?o + ?l)" using that by blast
        have "loadf bf' x = loadf bf x"
          unfolding bf'(4) using notin by (rule if_not_P)
        moreover have "\<forall>c'<c. \<not> (c' * ?L + ?o \<le> x \<and> x < c' * ?L + ?o + ?l)"
          using that by simp
        ultimately show ?thesis using h(3) by simp
      qed
      show ?thesis using run bf'(2) bf'(3) h(3) new old by (intro exI [of _ bf']) simp
    qed
  qed
  then show ?thesis by blast
qed

lemma merge_copy_loop:
  fixes bs :: "fval list AudioBuffer list" and total :: u32
  assumes wf: "\<forall>b\<in>set bs. C * frames b \<le> length (data b)"
    and small: "4 * (C * merge_length bs) < 2 ^ 32" "merge_length bs < 2 ^ 32"
    and room: "4 * (C * merge_length bs) \<le> blen buf"
    and total: "unat total = merge_length bs"
    and C: "unat n_channels = C"
  shows "\<exists>buf' off. for_loop 0 (length bs) (merge_copy_step bs n_channels total) (buf, 0)
              = Inr (buf', off)
          \<and> blen buf' = blen buf \<and> (buf' = None) = (buf = None)
          \<and> (\<forall>k<length bs. \<forall>c<C. \<forall>j<frames (bs ! k).
                loadf buf' (c * merge_length bs + merge_offset bs k + j)
                  = Some (data (bs ! k) ! (c * frames (bs ! k) + j)))"
proof -
  let ?L = "merge_length bs"
  let ?I = "\<lambda>i st. unat (snd st) = merge_offset bs i \<and> blen (fst st) = blen buf
      \<and> (fst st = None) = (buf = None)
      \<and> (\<forall>k<i. \<forall>c<C. \<forall>j<frames (bs ! k).
            loadf (fst st) (c * ?L + merge_offset bs k + j)
              = Some (data (bs ! k) ! (c * frames (bs ! k) + j)))"
  have Clt: "C < 2 ^ 32"
  proof -
    have "unat n_channels < 2 ^ 16" using unsigned_less [of n_channels, where ?'a = nat] by simp
    then show ?thesis using C by simp
  qed
  have "\<exists>t. for_loop 0 (length bs) (merge_copy_step bs n_channels total) (buf, 0) = Inr t
          \<and> ?I (length bs) t"
  proof (rule for_loop_invariant [where I = ?I])
    show "0 \<le> length bs" by simp
    show "?I 0 (buf, 0)" by simp
    show "\<exists>t'. merge_copy_step bs n_channels total i st = Inr t' \<and> ?I (Suc i) t'"
      if h: "0 \<le> i" "i < length bs" "?I i st" for i st
    proof -
      obtain bf off where st: "st = (bf, off)" by (cases st)
      have off: "unat off = merge_offset bs i" and bl: "blen bf = blen buf"
        and nn: "(bf = None) = (buf = None)"
        using h(3) st by simp_all
      let ?b = "bs ! i"
      have mem: "?b \<in> set bs" using h(2) by simp
      have fits: "merge_offset bs i + frames ?b \<le> ?L" by (rule merge_offset_fits [OF h(2)])
      have a1: "C * frames ?b \<le> length (data ?b)" using wf mem by blast
      have a2: "unat off + frames ?b \<le> unat total" using fits off total by simp
      have a3: "4 * (C * unat total) \<le> blen bf" using room bl total by simp
      have a4: "4 * (C * unat total) < 2 ^ 32" using small(1) total by simp
      from merge_channels [OF a1 a2 a3 a4 Clt]
      obtain bf' where bf': "for_loop 0 C
            (\<lambda>ch b'. memcpy_f32 b' (unat (of_nat ch * total) + unat off) (data ?b)
                (unat (of_nat ch * length_frames ?b)) (unat (length_frames ?b * 4))) bf = Inr bf'"
        "blen bf' = blen bf" "(bf' = None) = (bf = None)"
        "\<And>c j. c < C \<Longrightarrow> j < frames ?b \<Longrightarrow>
            loadf bf' (c * unat total + unat off + j) = Some (data ?b ! (c * frames ?b + j))"
        "\<And>x. (\<forall>c<C. \<not> (c * unat total + unat off \<le> x
                          \<and> x < c * unat total + unat off + frames ?b))
              \<Longrightarrow> loadf bf' x = loadf bf x"
        by blast
      have noff: "unat (off + length_frames ?b) = merge_offset bs (Suc i)"
      proof -
        have "unat off + unat (length_frames ?b) < 2 ^ 32"
          using fits off small(2) by (simp add: frames_def)
        then have "unat (off + length_frames ?b) = unat off + unat (length_frames ?b)"
          by (rule unat_add_u32)
        then show ?thesis using off h(2) by (simp add: merge_offset_Suc frames_def)
      qed
      have run: "merge_copy_step bs n_channels total i st = Inr (bf', off + length_frames ?b)"
        using bf'(1) h(2) by (simp add: merge_copy_step_def st load_elem_def C)
      have facts: "loadf bf' (c * ?L + merge_offset bs k + j)
                     = Some (data (bs ! k) ! (c * frames (bs ! k) + j))"
        if "k < Suc i" "c < C" "j < frames (bs ! k)" for k c j
      proof (cases "k = i")
        case True
        then show ?thesis using bf'(4) [OF that(2), of j] that(3) off total by simp
      next
        case False
        then have ki: "k < i" using that(1) by simp
        then have kl: "k < length bs" using h(2) by simp
        have fk: "merge_offset bs k + frames (bs ! k) \<le> ?L" by (rule merge_offset_fits [OF kl])
        have "merge_offset bs (Suc k) \<le> merge_offset bs i" using ki by (intro merge_offset_mono) simp
        then have before: "merge_offset bs k + frames (bs ! k) \<le> merge_offset bs i"
          using kl by (simp add: merge_offset_Suc)
        have apart: "\<not> (c' * ?L + merge_offset bs i \<le> c * ?L + merge_offset bs k + j
                       \<and> c * ?L + merge_offset bs k + j < c' * ?L + merge_offset bs i + frames ?b)"
          for c'
          using before by (intro region_apart [OF that(3) fk fits]) simp
        have "loadf bf' (c * ?L + merge_offset bs k + j) = loadf bf (c * ?L + merge_offset bs k + j)"
          using apart by (intro bf'(5)) (simp add: off total)
        also have "\<dots> = Some (data (bs ! k) ! (c * frames (bs ! k) + j))"
          using h(3) st ki that(2,3) by simp
        finally show ?thesis .
      qed
      show ?thesis using run noff bf'(2) bf'(3) bl nn facts by simp
    qed
  qed
  then show ?thesis by (metis prod.collapse)
qed

lemma arena_ok_blen: "arena_ok m \<longleftrightarrow> blen (buffer m) = unat (capacity m)"
  by (cases "buffer m") (auto simp: arena_ok_def blen_def unat_eq_0)

section \<open>The loops of the resampler\<close>

lemma uint_u32_small: "\<bar>uint (w :: u32)\<bar> < 9007199254740992"
proof -
  have "uint w < 2 ^ 32" using uint_lt2p [of w] by simp
  moreover have "0 \<le> uint w" by simp
  ultimately show ?thesis by simp
qed

lemma f64_of_u32: "f_of_int binary64 (uint (w :: u32)) = Finite (of_int (uint w))"
  by (rule f64_of_int [OF uint_u32_small])

lemma f64_of_nat:
  assumes "i < 2 ^ 32"
  shows "f_of_int binary64 (int i) = Finite (of_nat i)"
proof -
  have "\<bar>int i\<bar> < 9007199254740992" using assms by simp
  from f64_of_int [OF this] show ?thesis by simp
qed

lemma trunc_nonneg: "0 \<le> x \<Longrightarrow> trunc x = \<lfloor>x\<rfloor>"
  by (simp add: trunc_def)

lemma unat_word_of_int_u32:
  assumes "0 \<le> k" "k < 2 ^ 32"
  shows "unat (word_of_int k :: u32) = nat k"
proof -
  have "uint (word_of_int k :: u32) = k"
    using assms by (simp add: uint_word_of_int)
  then show ?thesis by (simp add: unat_eq_nat_uint)
qed

text \<open>The position \<open>i / ratio\<close> of an output frame, rounded, is a valid source index.\<close>

lemma src_pos_range:
  fixes \<rho> :: rat
  assumes \<rho>: "0 < \<rho>" and i: "of_nat i < of_nat L * \<rho>" and L: "L < 2 ^ 32"
  shows "fdiv binary64 (Finite (of_nat i)) (Finite \<rho>) = Finite (round_to binary64 (of_nat i / \<rho>))"
    and "0 \<le> round_to binary64 (of_nat i / \<rho>)"
    and "round_to binary64 (of_nat i / \<rho>) \<le> of_nat L"
proof -
  let ?x = "(of_nat i :: rat) / \<rho>"
  have x0: "0 \<le> ?x" using \<rho> by simp
  have xL: "?x < of_nat L" using i \<rho> by (simp add: pos_divide_less_eq)
  have "(of_nat L :: rat) < 2 ^ 32" using L by (metis of_nat_less_iff of_nat_numeral of_nat_power)
  then have ab: "\<bar>?x\<bar> < 9007199254740992" using x0 xL by simp
  show "fdiv binary64 (Finite (of_nat i)) (Finite \<rho>) = Finite (round_to binary64 ?x)"
    using \<rho> fround64_small [OF ab] by (simp add: fdiv_def)
  have "of_int 0 \<le> ?x" using x0 by simp
  from round64_ge_int [OF ab this] show "0 \<le> round_to binary64 ?x" by simp
  have "?x \<le> of_int (int L)" using xL by simp
  from round64_le_int [OF ab this] show "round_to binary64 ?x \<le> of_nat L" by simp
qed

lemma store_f32_ok:
  assumes "4 * i + 4 \<le> blen buf"
  shows "\<exists>buf'. store_f32 buf i v = Inr buf' \<and> blen buf' = blen buf \<and> (buf' = None) = (buf = None)"
proof -
  obtain blk where blk: "buf = Some blk" using assms by (cases buf) (auto simp: blen_def)
  have "4 * i + length (float_cells v) \<le> length blk" using assms blk by (simp add: blen_def)
  from store_cells_Some [OF this] show ?thesis
    using assms blk by (simp add: store_f32_def blen_def)
qed

lemma resample_step_ok:
  fixes \<rho> :: rat and len :: u32
  assumes \<rho>: "0 < \<rho>" and i: "of_nat i < of_nat (unat len) * \<rho>" and i32: "i < 2 ^ 32"
    and src: "src + unat len \<le> length src_data"
    and dst: "4 * (dst + i) + 4 \<le> blen buf"
  shows "\<exists>buf'. resample_step src_data len (Finite \<rho>) src dst i buf = Inr buf'
           \<and> blen buf' = blen buf \<and> (buf' = None) = (buf = None)"
proof -
  let ?L = "unat len"
  have L32: "?L < 2 ^ 32" using unsigned_less [of len, where ?'a = nat] by simp
  have Lpos: "0 < ?L"
  proof (rule ccontr)
    assume "\<not> 0 < ?L"
    then have "?L = 0" by simp
    then show False using i by simp
  qed
  define q where "q = round_to binary64 (of_nat i / \<rho>)"
  note sp = src_pos_range [OF \<rho> i L32, folded q_def]
  define k where "k = trunc q"
  have k: "0 \<le> k" "k \<le> int ?L"
    using sp(2,3) by (simp_all add: k_def trunc_nonneg floor_le_iff)
  have L32': "?L < 4294967296" using L32 by simp
  have k32: "k \<le> 4294967295" using k(2) L32' by linarith
  have pos: "fdiv binary64 (f_of_int binary64 (int i)) (Finite \<rho>) = Finite q"
    using sp(1) by (simp add: f64_of_nat [OF i32])
  have cast: "f_to_int 0 4294967295 (Finite q) = Inr k"
    using k(1) k32 by (simp add: f_to_int_def k_def)
  have uk: "unat (word_of_int k :: u32) = nat k"
    using k(1) k32 by (intro unat_word_of_int_u32) simp_all
  have len1: "1 \<le> len" using Lpos by (simp add: word_le_nat_alt)
  have ul1: "unat (len - 1) = ?L - 1" using unat_sub [OF len1] by simp
  let ?frac = "fsub binary64 (Finite q) (f_of_int binary64 (uint (word_of_int k :: u32)))"
  show ?thesis
  proof (cases "len - 1 \<le> (word_of_int k :: u32)")
    case True
    have ld: "load_elem src_data (src + unat (len - 1)) = Inr (src_data ! (src + (?L - 1)))"
      using src Lpos by (simp add: load_elem_def ul1)
    from store_f32_ok [OF dst]
    obtain buf' where "store_f32 buf (dst + i) (src_data ! (src + (?L - 1))) = Inr buf'"
      "blen buf' = blen buf" "(buf' = None) = (buf = None)" by blast
    then show ?thesis
      using True by (simp add: resample_step_def Let_def pos cast ld)
  next
    case False
    then have lt: "nat k < ?L - 1" by (simp add: word_le_nat_alt uk ul1)
    have ld1: "load_elem src_data (src + unat (word_of_int k :: u32))
                = Inr (src_data ! (src + nat k))"
      using src lt by (simp add: load_elem_def uk)
    have "unat (word_of_int k :: u32) + unat (1 :: u32) < 2 ^ 32" using lt L32 uk by simp
    then have uk1: "unat (word_of_int k + 1 :: u32) = nat k + 1"
      using unat_add_u32 [of "word_of_int k" 1] uk by simp
    have ld2: "load_elem src_data (src + unat (word_of_int k + 1 :: u32))
                = Inr (src_data ! (src + (nat k + 1)))"
      using src lt by (simp add: load_elem_def uk1)
    let ?v = "f_convert binary32
                (fadd binary64
                   (fmul binary64 (f_convert binary64 (src_data ! (src + nat k)))
                      (fsub binary64 (f_of_int binary64 1) ?frac))
                   (fmul binary64 (f_convert binary64 (src_data ! (src + (nat k + 1)))) ?frac))"
    from store_f32_ok [OF dst]
    obtain buf' where "store_f32 buf (dst + i) ?v = Inr buf'"
      "blen buf' = blen buf" "(buf' = None) = (buf = None)" by blast
    then show ?thesis
      using False by (simp add: resample_step_def Let_def pos cast ld1 ld2)
  qed
qed

lemma round_to_nonneg: "0 \<le> x \<Longrightarrow> 0 \<le> round_to f x"
  using round_to_ge [of 0 x f 0] by simp

lemma resample_channel_loop:
  fixes \<rho> :: rat and len :: u32
  assumes \<rho>: "0 < T \<Longrightarrow> 0 < \<rho>"
    and below: "\<And>i. i < T \<Longrightarrow> of_nat i < of_nat (unat len) * \<rho>"
    and T32: "T < 2 ^ 32"
    and src: "src + unat len \<le> length src_data"
    and dst: "4 * (dst + T) \<le> blen buf"
  shows "\<exists>buf'. for_loop 0 T (resample_step src_data len (Finite \<rho>) src dst) buf = Inr buf'
           \<and> blen buf' = blen buf \<and> (buf' = None) = (buf = None)"
proof -
  let ?I = "\<lambda>(i::nat) bf. blen bf = blen buf \<and> (bf = None) = (buf = None)"
  have "\<exists>t. for_loop 0 T (resample_step src_data len (Finite \<rho>) src dst) buf = Inr t \<and> ?I T t"
  proof (rule for_loop_invariant [where I = ?I])
    show "0 \<le> T" by simp
    show "?I 0 buf" by simp
    show "\<exists>t'. resample_step src_data len (Finite \<rho>) src dst i bf = Inr t' \<and> ?I (Suc i) t'"
      if h: "0 \<le> i" "i < T" "?I i bf" for i bf
    proof -
      have p: "0 < \<rho>" using \<rho> h(2) by simp
      have i32: "i < 2 ^ 32" using h(2) T32 by simp
      have d: "4 * (dst + i) + 4 \<le> blen bf" using dst h(2,3) by simp
      from resample_step_ok [OF p below [OF h(2)] i32 src d] show ?thesis using h(3) by auto
    qed
  qed
  then show ?thesis by blast
qed

lemma unat_mult_le_u32: "unat (a * b :: u32) \<le> unat a * unat b"
  by (simp add: unat_word_ariths)

lemma resample_loops:
  fixes \<rho> :: rat and target_length :: u32
  assumes \<rho>: "0 < T \<Longrightarrow> 0 < \<rho>"
    and below: "\<And>i. i < T \<Longrightarrow> of_nat i < of_nat (frames source) * \<rho>"
    and T: "unat target_length = T"
    and small: "4 * (unat (num_channels source) * T) < 2 ^ 32"
    and wf: "unat (num_channels source) * frames source \<le> length (data source)"
    and room: "4 * (unat (num_channels source) * T) \<le> blen buf"
  shows "\<exists>buf'. for_loop 0 (unat (num_channels source))
             (\<lambda>ch bf. for_loop 0 (unat target_length)
                 (resample_step (data source) (length_frames source) (Finite \<rho>)
                    (unat (of_nat ch * length_frames source))
                    (unat (of_nat ch * target_length)))
                 bf)
             buf = Inr buf'
           \<and> blen buf' = blen buf \<and> (buf' = None) = (buf = None)"
proof -
  let ?C = "unat (num_channels source)" and ?L = "frames source"
  let ?body = "\<lambda>ch bf. for_loop 0 (unat target_length)
                 (resample_step (data source) (length_frames source) (Finite \<rho>)
                    (unat (of_nat ch * length_frames source))
                    (unat (of_nat ch * target_length)))
                 bf"
  let ?I = "\<lambda>(c::nat) bf. blen bf = blen buf \<and> (bf = None) = (buf = None)"
  have T32: "T < 2 ^ 32"
  proof -
    have "unat target_length < 2 ^ 32"
      using unsigned_less [of target_length, where ?'a = nat] by simp
    then show ?thesis by (simp only: T)
  qed
  have C16: "?C < 2 ^ 16" using unsigned_less [of "num_channels source", where ?'a = nat] by simp
  have "\<exists>t. for_loop 0 ?C ?body buf = Inr t \<and> ?I ?C t"
  proof (rule for_loop_invariant [where I = ?I])
    show "0 \<le> ?C" by simp
    show "?I 0 buf" by simp
    show "\<exists>t'. ?body c bf = Inr t' \<and> ?I (Suc c) t'" if h: "0 \<le> c" "c < ?C" "?I c bf" for c bf
    proof -
      have cC: "Suc c \<le> ?C" using h(2) by simp
      have cT: "Suc c * T \<le> ?C * T" using cC by (rule mult_le_mono1)
      have cL: "Suc c * ?L \<le> ?C * ?L" using cC by (rule mult_le_mono1)
      have uc: "unat (of_nat c :: u32) = c" using h(2) C16 by (simp add: unat_of_nat_u32)
      have b1: "c * T < 2 ^ 32"
      proof -
        have "c * T \<le> Suc c * T" by simp
        then show ?thesis using cT small by linarith
      qed
      have w1: "unat (of_nat c * target_length) = c * T"
        using unat_mult_u32 [of "of_nat c" target_length] b1 by (simp only: uc T)
      have "unat (of_nat c * length_frames source) \<le> c * ?L"
        using unat_mult_le_u32 [of "of_nat c" "length_frames source"]
        by (simp only: uc frames_def)
      then have s: "unat (of_nat c * length_frames source) + unat (length_frames source)
                    \<le> length (data source)"
        using cL wf by (simp add: frames_def)
      have d: "4 * (unat (of_nat c * target_length) + T) \<le> blen bf"
        using cT room h(3) by (simp add: w1)
      have bl: "\<And>i. i < T \<Longrightarrow> of_nat i < of_nat (unat (length_frames source)) * \<rho>"
        using below by (simp add: frames_def)
      from resample_channel_loop [OF \<rho> bl T32 s d]
      show ?thesis using h(3) by (auto simp: T)
    qed
  qed
  then show ?thesis by blast
qed

lemma resample_runs:
  assumes diff: "sample_rate source \<noteq> target" and rate: "sample_rate source \<noteq> 0"
    and fits: "resample_length (length_frames source) target (sample_rate source) < 2 ^ 32"
    and small: "4 * (unat (num_channels source)
                     * nat (resample_length (length_frames source) target (sample_rate source)))
                < 2 ^ 32"
    and wf: "unat (num_channels source) * frames source \<le> length (data source)"
    and ok: "arena_ok m"
    and alloc: "alloc_ok \<or> 4 * (unat (num_channels source)
                     * nat (resample_length (length_frames source) target (sample_rate source)))
                   \<le> unat (capacity m)"
  shows "\<exists>m'. wasm_resample_audio alloc_ok source target output m
            = Inr (word_of_int (resample_length (length_frames source) target (sample_rate source)),
                   \<lparr>data = arena_ptr m',
                    length_frames = word_of_int
                      (resample_length (length_frames source) target (sample_rate source)),
                    num_channels = num_channels source, sample_rate = target\<rparr>,
                   m')
          \<and> size_used m' = of_nat (4 * (unat (num_channels source)
                     * nat (resample_length (length_frames source) target (sample_rate source))))
          \<and> arena_ok m'"
proof -
  let ?C = "unat (num_channels source)"
  let ?l = "of_int (uint (length_frames source)) :: rat"
  define \<rho> where "\<rho> = resample_ratio target (sample_rate source)"
  define r where "r = round_to binary64 (?l * \<rho>)"
  define T where "T = resample_length (length_frames source) target (sample_rate source)"
  have Tr: "T = trunc r" by (simp add: T_def resample_length_def r_def \<rho>_def)
  let ?x = "of_int (uint target) / of_int (uint (sample_rate source)) :: rat"
  have si: "0 < uint (sample_rate source)"
    using rate by (metis uint_0_iff less_le uint_ge_0)
  then have s0: "(0::rat) < of_int (uint (sample_rate source))" by (simp only: of_int_0_less_iff)
  have t0: "(0::rat) \<le> of_int (uint target)" by (simp only: of_int_0_le_iff uint_ge_0)
  have x0: "0 \<le> ?x" using s0 t0 by (simp only: zero_le_divide_iff) simp
  have "1 \<le> uint (sample_rate source)" using si by linarith
  then have s1: "(1::rat) \<le> of_int (uint (sample_rate source))"
    by (metis of_int_le_iff of_int_1)
  have xt: "?x \<le> of_int (uint target)"
  proof -
    have "of_int (uint target) * 1 \<le> (of_int (uint target) :: rat) * of_int (uint (sample_rate source))"
      using s1 t0 by (rule mult_left_mono)
    then show ?thesis using s0 by (simp only: pos_divide_le_eq mult_1_right)
  qed
  have "uint target < 4294967296" using uint_lt2p [of target] by simp
  then have "(of_int (uint target) :: rat) < of_int 4294967296" by (simp only: of_int_less_iff)
  then have "(of_int (uint target) :: rat) < 4294967296" by (simp only: of_int_numeral)
  then have xs: "\<bar>?x\<bar> < 9007199254740992" using x0 xt by linarith
  have ratio: "fdiv binary64 (f_of_int binary64 (uint target))
                 (f_of_int binary64 (uint (sample_rate source))) = Finite \<rho>"
    using s0 fround64_small [OF xs]
    by (simp add: f64_of_u32 fdiv_def \<rho>_def resample_ratio_def)
  have \<rho>0: "0 \<le> \<rho>" using x0 by (simp add: \<rho>_def resample_ratio_def round_to_nonneg)
  have l0: "0 \<le> ?l" by (simp only: of_int_0_le_iff uint_ge_0)
  have r0: "0 \<le> r" using \<rho>0 l0 by (simp add: r_def round_to_nonneg)
  have T0: "0 \<le> T" using r0 by (simp add: Tr trunc_nonneg)
  have T32: "T < 4294967296" using fits by (simp add: T_def)
  have "r < of_int \<lfloor>r\<rfloor> + 1" by linarith
  moreover have "(of_int \<lfloor>r\<rfloor> :: rat) < of_int 4294967296"
    using T32 r0 by (simp only: of_int_less_iff Tr trunc_nonneg)
  ultimately have "r < 4294967297" by simp
  then have nov: "\<not> 2 powi (emax binary64 + 1) \<le> \<bar>r\<bar>" using r0 by (simp add: binary64_def)
  have prod: "fmul binary64 (f_of_int binary64 (uint (length_frames source))) (Finite \<rho>) = Finite r"
    using nov by (simp add: f64_of_u32 fmul_def fround_def Let_def r_def)
  have cast: "f_to_int 0 4294967295 (Finite r) = Inr T"
    using T0 T32 by (simp add: f_to_int_def Tr)
  define target_length :: u32 where "target_length = word_of_int T"
  have uT: "unat target_length = nat T"
    unfolding target_length_def using T0 T32 by (intro unat_word_of_int_u32) simp_all
  define buffer_size :: u32 where "buffer_size = target_length * ucast (num_channels source) * 4"
  have sm: "4 * (?C * nat T) < 2 ^ 32" using small by (simp add: T_def)
  have "unat target_length * ?C < 2 ^ 32" using sm uT by (simp add: mult.commute)
  then have u1: "unat (target_length * ucast (num_channels source)) = unat target_length * ?C"
    using unat_mult_u32 [of target_length "ucast (num_channels source)"]
    by (simp add: unat_ucast_16_32)
  have ub: "unat buffer_size = 4 * (?C * nat T)"
    using sm u1 uT unat_mult_u32 [of "target_length * ucast (num_channels source)" 4]
    by (simp add: buffer_size_def mult.commute)
  have wb: "of_nat (4 * (?C * nat T)) = buffer_size"
    unfolding ub [symmetric] by (simp only: of_nat_unat ucast_id)
  have "alloc_ok \<or> buffer_size \<le> capacity m"
    using alloc ub by (simp add: word_le_nat_alt T_def)
  from grow_ok [OF ok this]
  obtain m1 where m1: "grow alloc_ok buffer_size m = Some m1" "arena_ok m1"
    "buffer_size \<le> capacity m1" by auto
  have bl1: "blen (buffer m1) = unat (capacity m1)" using m1(2) by (simp add: arena_ok_blen)
  have room: "4 * (?C * nat T) \<le> blen (buffer m1)"
    using m1(3) ub bl1 by (simp add: word_le_nat_alt)
  have below: "of_nat i < of_nat (frames source) * \<rho>" if "i < nat T" for i
  proof (rule ccontr)
    assume "\<not> of_nat i < of_nat (frames source) * \<rho>"
    then have le: "?l * \<rho> \<le> of_int (int i)" by (simp add: frames_def not_less)
    have "int i < 4294967296" using that T32 by linarith
    then have "(of_int (int i) :: rat) < of_int 4294967296" by (simp only: of_int_less_iff)
    then have "(of_int (int i) :: rat) < 9007199254740992" by simp
    moreover have "0 \<le> ?l * \<rho>" using \<rho>0 l0 by simp
    ultimately have "\<bar>?l * \<rho>\<bar> < 9007199254740992" using le by simp
    from round64_le_int [OF this le] have "r \<le> of_int (int i)" by (simp add: r_def)
    then have "T \<le> int i" using r0 by (simp add: Tr trunc_nonneg floor_le_iff)
    then show False using that by simp
  qed
  have \<rho>pos: "0 < \<rho>" if "0 < nat T"
  proof (rule ccontr)
    assume "\<not> 0 < \<rho>"
    then have "\<rho> = 0" using \<rho>0 by simp
    then have "r = 0" by (simp add: r_def round_to_def)
    then show False using that by (simp add: Tr trunc_def)
  qed
  have "\<exists>buf'. for_loop 0 (unat (num_channels source))
             (\<lambda>ch bf. for_loop 0 (unat target_length)
                 (resample_step (data source) (length_frames source) (Finite \<rho>)
                    (unat (of_nat ch * length_frames source))
                    (unat (of_nat ch * target_length)))
                 bf)
             (buffer m1) = Inr buf'
           \<and> blen buf' = blen (buffer m1) \<and> (buf' = None) = (buffer m1 = None)"
  proof (rule resample_loops [where T = "nat T"])
    show "0 < \<rho>" if "0 < nat T" using that by (rule \<rho>pos)
    show "of_nat i < of_nat (frames source) * \<rho>" if "i < nat T" for i using that by (rule below)
  qed (rule uT sm wf room)+
  then obtain buf' where lp: "for_loop 0 (unat (num_channels source))
             (\<lambda>ch bf. for_loop 0 (unat target_length)
                 (resample_step (data source) (length_frames source) (Finite \<rho>)
                    (unat (of_nat ch * length_frames source))
                    (unat (of_nat ch * target_length)))
                 bf)
             (buffer m1) = Inr buf'"
    "blen buf' = blen (buffer m1)" "(buf' = None) = (buffer m1 = None)"
    by (elim exE conjE) (rule that, assumption+)
  define m' where "m' = m1\<lparr>buffer := buf', size_used := buffer_size\<rparr>"
  have ptr: "arena_ptr (m1\<lparr>buffer := buf', size_used := buffer_size\<rparr>) = arena_ptr m1"
    using lp(3) by (cases buf'; cases "buffer m1") (simp_all add: arena_ptr_def)
  have run: "wasm_resample_audio alloc_ok source target output m
              = Inr (target_length,
                     \<lparr>data = arena_ptr m', length_frames = target_length,
                      num_channels = num_channels source, sample_rate = target\<rparr>, m')"
    using diff ratio prod cast m1(1) lp(1)
    by (simp add: wasm_resample_audio_def Let_def target_length_def [symmetric]
        buffer_size_def [symmetric] ptr m'_def)
  have okm': "arena_ok m'" using lp(2) bl1 by (simp add: arena_ok_blen m'_def)
  have su: "size_used m' = of_nat (4 * (?C * nat T))"
    unfolding wb by (simp add: m'_def)
  show ?thesis
    using run su okm' unfolding T_def [symmetric] target_length_def
    by (intro exI [of _ m'] conjI)
qed

section \<open>The error of the frame count\<close>

text \<open>
  Rounding a normal number moves it by at most the fraction \<open>2^-p\<close> of itself; the two
  roundings of the frame count move it by less than one.
\<close>

lemma round_to_rel_err:
  assumes x: "0 < x" and normal: "qmin f \<le> ilog2 x - int (prec f) + 1"
  shows "\<bar>round_to f x - x\<bar> \<le> x / 2 ^ prec f"
proof -
  define e where "e = ilog2 x - int (prec f) + 1"
  have qe: "qexp f x = e" using x normal by (simp add: qexp_def e_def)
  define u :: rat where "u = 2 powi e"
  have u0: "0 < u" by (simp add: u_def)
  have rt: "round_to f x = of_int (rne (x / u)) * u" using x by (simp add: round_to_def qe u_def)
  have "round_to f x - x = (of_int (rne (x / u)) - x / u) * u"
    using u0 by (simp add: rt field_simps)
  then have "\<bar>round_to f x - x\<bar> = \<bar>of_int (rne (x / u)) - x / u\<bar> * u"
    using u0 by (simp add: abs_mult)
  also have "\<dots> \<le> (1 / 2) * u" using rne_err [of "x / u"] u0 by (intro mult_right_mono) simp_all
  also have "(1 / 2) * u = 2 powi (ilog2 x) / 2 ^ prec f"
  proof -
    have "u = 2 powi (ilog2 x) * 2 powi (- int (prec f) + 1)"
      unfolding u_def e_def using power_int_add [of "2::rat" "ilog2 x" "- int (prec f) + 1"]
      by (simp add: algebra_simps)
    moreover have "(2::rat) powi (- int (prec f) + 1) = 2 / 2 ^ prec f"
      using power_int_add [of "2::rat" "- int (prec f)" 1]
      by (simp add: power_int_minus field_simps)
    ultimately show ?thesis by simp
  qed
  also have "\<dots> \<le> x / 2 ^ prec f"
    using ilog2_bounds(1) [OF x] by (intro divide_right_mono) simp_all
  finally show ?thesis .
qed

lemma round64_rel_err:
  assumes "1 / 2 ^ 34 \<le> x"
  shows "\<bar>round_to binary64 x - x\<bar> \<le> x / 2 ^ 53"
proof -
  have "(0::rat) < 1 / 2 ^ 34" by simp
  then have x: "0 < x" using assms by linarith
  have "(2::rat) powi (- 34) \<le> x" using assms by (simp add: power_int_minus field_simps)
  from ilog2_ge [OF x this] have "- 34 \<le> ilog2 x" .
  then have "qmin binary64 \<le> ilog2 x - int (prec binary64) + 1" by (simp add: binary64_def)
  from round_to_rel_err [OF x this] show ?thesis by (simp add: binary64_def)
qed

lemma floor_near:
  fixes a b :: rat
  assumes "\<bar>a - b\<bar> < 1"
  shows "\<bar>\<lfloor>a\<rfloor> - \<lfloor>b\<rfloor>\<bar> \<le> 1"
proof -
  have "of_int \<lfloor>a\<rfloor> \<le> a" "a < of_int \<lfloor>a\<rfloor> + 1" "of_int \<lfloor>b\<rfloor> \<le> b" "b < of_int \<lfloor>b\<rfloor> + 1"
    by linarith+
  then have "(of_int \<lfloor>a\<rfloor> :: rat) < of_int \<lfloor>b\<rfloor> + 2" "(of_int \<lfloor>b\<rfloor> :: rat) < of_int \<lfloor>a\<rfloor> + 2"
    using assms by linarith+
  then have "(of_int \<lfloor>a\<rfloor> :: rat) < of_int (\<lfloor>b\<rfloor> + 2)" "(of_int \<lfloor>b\<rfloor> :: rat) < of_int (\<lfloor>a\<rfloor> + 2)"
    by simp_all
  then have "\<lfloor>a\<rfloor> < \<lfloor>b\<rfloor> + 2" "\<lfloor>b\<rfloor> < \<lfloor>a\<rfloor> + 2" by (simp_all only: of_int_less_iff)
  then show ?thesis by linarith
qed

lemma resample_length_near:
  fixes len target rate :: u32
  assumes rate: "rate \<noteq> 0"
    and fits: "of_int (uint len) * of_int (uint target) / of_int (uint rate) < (2::rat) ^ 32"
  shows "0 \<le> resample_length len target rate"
    and "\<bar>resample_length len target rate
          - \<lfloor>of_int (uint len) * of_int (uint target) / of_int (uint rate) :: rat\<rfloor>\<bar> \<le> 1"
proof -
  define L :: rat where "L = of_int (uint len)"
  define t :: rat where "t = of_int (uint target)"
  define s :: rat where "s = of_int (uint rate)"
  define a where "a = t / s"
  define r0 where "r0 = round_to binary64 a"
  define x1 where "x1 = L * r0"
  define p where "p = round_to binary64 x1"
  define E where "E = L * a"
  have N: "resample_length len target rate = trunc p"
    by (simp add: resample_length_def resample_ratio_def p_def x1_def r0_def a_def L_def t_def s_def)
  have EE: "of_int (uint len) * of_int (uint target) / of_int (uint rate) = E"
    by (simp add: E_def a_def L_def t_def s_def)
  have L0: "0 \<le> L" and t0: "0 \<le> t"
    unfolding L_def t_def by (simp_all only: of_int_0_le_iff uint_ge_0)
  have "uint rate \<noteq> 0" using rate by (simp add: uint_0_iff)
  then have "1 \<le> uint rate" using uint_ge_0 [of rate] by linarith
  then have s1: "1 \<le> s" unfolding s_def by (simp only: of_int_1_le_iff)
  have "uint rate < 2 ^ 32" using uint_lt2p [of rate] by simp
  then have s32: "s < 2 ^ 32" unfolding s_def by (metis of_int_less_iff of_int_numeral of_int_power)
  have a0: "0 \<le> a" using t0 s1 by (simp add: a_def)
  have r00: "0 \<le> r0" unfolding r0_def by (rule round_to_nonneg [OF a0])
  have x10: "0 \<le> x1" unfolding x1_def using L0 r00 by simp
  have p0: "0 \<le> p" unfolding p_def by (rule round_to_nonneg [OF x10])
  show "0 \<le> resample_length len target rate" using p0 by (simp add: N trunc_def)
  have near: "\<bar>p - E\<bar> < 1"
  proof (cases "L = 0 \<or> t = 0")
    case True
    then have "x1 = 0" by (auto simp: x1_def r0_def a_def round_to_def)
    then have "p = 0" by (simp add: p_def round_to_def)
    moreover have "E = 0" using True by (auto simp: E_def a_def)
    ultimately show ?thesis by simp
  next
    case False
    have "L \<noteq> 0" "t \<noteq> 0" using False by simp_all
    then have "uint len \<noteq> 0" "uint target \<noteq> 0"
      unfolding L_def t_def by (simp_all only: of_int_eq_0_iff not_False_eq_True)
    then have "1 \<le> uint len" "1 \<le> uint target"
      using uint_ge_0 [of len] uint_ge_0 [of target] by linarith+
    then have L1: "1 \<le> L" and t1: "1 \<le> t"
      unfolding L_def t_def by (simp_all only: of_int_1_le_iff)
    have "1 / 2 ^ 32 \<le> t / s"
      using t1 s1 s32 by (intro frac_le) simp_all
    then have a32: "1 / 2 ^ 32 \<le> a" by (simp add: a_def)
    then have a34: "1 / 2 ^ 34 \<le> a" by simp
    have e0: "\<bar>r0 - a\<bar> \<le> a / 2 ^ 53" unfolding r0_def by (rule round64_rel_err [OF a34])
    have "a / 2 ^ 53 \<le> a / 2" using a0 by (intro divide_left_mono) simp_all
    then have "a / 2 \<le> r0" using e0 by linarith
    then have "1 / 2 ^ 34 \<le> r0" using a32 by simp
    moreover have "r0 \<le> x1"
      unfolding x1_def using L1 r00 mult_right_mono [of 1 L r0] by simp
    ultimately have x34: "1 / 2 ^ 34 \<le> x1" by linarith
    have e1: "\<bar>p - x1\<bar> \<le> x1 / 2 ^ 53" unfolding p_def by (rule round64_rel_err [OF x34])
    have "x1 - E = L * (r0 - a)" by (simp add: x1_def E_def algebra_simps)
    then have "\<bar>x1 - E\<bar> = L * \<bar>r0 - a\<bar>" using L0 by (simp add: abs_mult)
    also have "\<dots> \<le> L * (a / 2 ^ 53)" by (rule mult_left_mono [OF e0 L0])
    also have "\<dots> = E / 2 ^ 53" by (simp add: E_def)
    finally have e2: "\<bar>x1 - E\<bar> \<le> E / 2 ^ 53" .
    have E32: "E < 2 ^ 32" using fits by (simp only: EE)
    have E0: "0 \<le> E" unfolding E_def using L0 a0 by simp
    have x2: "x1 \<le> 2 * E"
    proof -
      have "E / 2 ^ 53 \<le> E" using E0 by (simp add: field_simps)
      then show ?thesis using e2 by linarith
    qed
    have "x1 / 2 ^ 53 \<le> 2 * E / 2 ^ 53" using x2 by (intro divide_right_mono) simp_all
    then have e3: "\<bar>p - E\<bar> \<le> 3 * E / 2 ^ 53" using e1 e2 by linarith
    have "3 * E / 2 ^ 53 < 3 * 2 ^ 32 / 2 ^ 53"
      using E32 by (intro divide_strict_right_mono) simp_all
    also have "\<dots> < (1::rat)" by simp
    finally show ?thesis using e3 by linarith
  qed
  have "\<bar>\<lfloor>p\<rfloor> - \<lfloor>E\<rfloor>\<bar> \<le> 1" by (rule floor_near [OF near])
  then show "\<bar>resample_length len target rate
          - \<lfloor>of_int (uint len) * of_int (uint target) / of_int (uint rate) :: rat\<rfloor>\<bar> \<le> 1"
    unfolding EE N using p0 by (simp add: trunc_def)
qed

lemma resample_length_exact:
  fixes len target rate :: u32
  assumes rate: "rate \<noteq> 0" and dv: "uint rate dvd uint target"
    and fits: "exact_length len target rate < 2 ^ 32"
  shows "resample_length len target rate = exact_length len target rate"
proof -
  obtain k where k: "uint target = uint rate * k" using dv by (auto simp: dvd_def)
  have r0: "uint rate \<noteq> 0" using rate by (simp add: uint_0_iff)
  then have rp: "0 < uint rate" using uint_ge_0 [of rate] by linarith
  have k0: "0 \<le> k"
  proof (rule ccontr)
    assume "\<not> 0 \<le> k"
    then have "k < 0" by simp
    then have "uint rate * k < 0" using rp by (simp add: mult_less_0_iff)
    then show False using k uint_ge_0 [of target] by linarith
  qed
  have "k \<le> uint rate * k" using rp k0 mult_right_mono [of 1 "uint rate" k] by simp
  then have k32: "k < 2 ^ 32" using k uint_lt2p [of target] by simp
  have q: "(of_int (uint target) :: rat) / of_int (uint rate) = of_int k"
  proof -
    have nz: "(of_int (uint rate) :: rat) \<noteq> 0"
      using r0 by (simp only: of_int_eq_0_iff not_False_eq_True)
    have x: "(of_int (uint target) :: rat) = of_int (uint rate) * of_int k"
      by (simp only: k of_int_mult)
    show ?thesis unfolding x using nz by (rule nonzero_mult_div_cancel_left)
  qed
  have "\<bar>k\<bar> < 9007199254740992" using k0 k32 by simp
  then have "\<bar>of_int k :: rat\<bar> < 9007199254740992"
    by (metis of_int_abs of_int_less_iff of_int_numeral)
  then have kb: "\<bar>of_int k :: rat\<bar> < 2 ^ prec binary64" by (simp add: binary64_def)
  have ratio: "resample_ratio target rate = of_int k"
    unfolding resample_ratio_def q by (rule round_to_of_int [OF kb]) (simp add: binary64_def)
  have "(of_int (uint len) :: rat) * of_int (uint target) / of_int (uint rate)
        = of_int (uint len) * (of_int (uint target) / of_int (uint rate))" by simp
  also have "\<dots> = of_int (uint len * k)" unfolding q by (simp only: of_int_mult)
  finally have E: "exact_length len target rate = uint len * k"
    unfolding exact_length_def by (simp only: floor_of_int)
  have "0 \<le> uint len * k" using k0 by simp
  moreover have "uint len * k < 2 ^ 32" using fits E by simp
  ultimately have "\<bar>uint len * k\<bar> < 9007199254740992" by simp
  then have "\<bar>of_int (uint len * k) :: rat\<bar> < 9007199254740992"
    by (metis of_int_abs of_int_less_iff of_int_numeral)
  then have pb: "\<bar>of_int (uint len * k) :: rat\<bar> < 2 ^ prec binary64"
    by (simp add: binary64_def)
  have prod: "(of_int (uint len) :: rat) * of_int k = of_int (uint len * k)"
    by (simp only: of_int_mult)
  have rp: "round_to binary64 (of_int (uint len * k)) = of_int (uint len * k)"
    by (rule round_to_of_int [OF pb]) (simp add: binary64_def)
  have tr: "trunc (of_int n) = n" for n
    unfolding trunc_def by (simp only: floor_of_int ceiling_of_int if_cancel)
  have N: "resample_length len target rate = uint len * k"
    unfolding resample_length_def ratio prod rp by (rule tr)
  show ?thesis using N E by simp
qed

section \<open>Merging no buffers\<close>

text \<open>
  Claim C10.  A call of \<open>merge_audio_buffers\<close> with \<open>num_buffers = 0\<close> returns 0 and leaves
  the arena (storage, used, capacity) and the caller's output descriptor as they were,
  whatever the array pointer and the allocator.
\<close>

theorem merge_no_buffers:
  "wasm_merge_audio_buffers alloc_ok buffers 0 output m = Inr (0, output, m)"
  by (simp add: wasm_merge_audio_buffers_def)

section \<open>The arena invariant\<close>

text \<open>
  Claim C9, at the input where it fails.  After \<open>init_memory(16)\<close> has succeeded on the
  initial arena the invariant holds; a following \<open>init_memory(32)\<close> whose allocation
  fails has freed the block and returns 0 with the null pointer but the old capacity 16,
  which breaks "storage is null iff capacity = 0" (\<open>cleanup\<close>, which also frees the block,
  resets both fields).
\<close>

theorem init_memory_failure_stale_capacity:
  "wasm_init_memory True 16 g_memory_buffer
     = (16, \<lparr>buffer = Some (replicate 16 Undef), size_used = 0, capacity = 16\<rparr>)
   \<and> arena_inv \<lparr>buffer = Some (replicate 16 Undef), size_used = 0, capacity = 16\<rparr>
   \<and> wasm_init_memory False 32
         \<lparr>buffer = Some (replicate 16 Undef), size_used = 0, capacity = 16\<rparr>
     = (0, \<lparr>buffer = None, size_used = 0, capacity = 16\<rparr>)
   \<and> \<not> arena_inv \<lparr>buffer = None, size_used = 0, capacity = 16\<rparr>"
  by (simp add: wasm_init_memory_def malloc_def g_memory_buffer_def arena_inv_def)

section \<open>Resampling to the same rate\<close>

text \<open>
  Claim C5, at an input where it fails.  With the target rate equal to the source rate the
  call returns the source length 1, but it has copied nothing: the output descriptor still
  holds what the caller put there (here zeros and a null pointer) and the arena is untouched,
  so no output equal to the input has been produced.
\<close>

theorem resample_equal_rates_no_output:
  "wasm_resample_audio alloc_ok
     \<lparr>data = [Finite (1 / 2)], length_frames = 1, num_channels = 1, sample_rate = 44100\<rparr>
     44100
     \<lparr>data = NullPtr, length_frames = 0, num_channels = 0, sample_rate = 0\<rparr> g_memory_buffer
   = Inr (1, \<lparr>data = NullPtr, length_frames = 0, num_channels = 0, sample_rate = 0\<rparr>,
          g_memory_buffer)"
  by (simp add: wasm_resample_audio_def)

section \<open>Slicing past the end\<close>

text \<open>
  Claim C2, at inputs where it fails.  The source is a mono buffer of 10 frames.  With
  \<open>start_frame = 10 + 2^30\<close> and \<open>length = 0\<close> the difference \<open>10 - start_frame\<close> wraps to
  3221225472, whose byte size wraps to 0: nothing is allocated or copied and the call returns
  3221225472, not 0.  With \<open>start_frame = 20\<close> and \<open>length = 5\<close> the length wraps to
  4294967286: if the allocator grants the 4294967256 bytes the copy reads beyond the source,
  and if it refuses the call returns 0 by the allocation-failure path, with the arena
  untouched.
\<close>

theorem slice_start_past_end:
  "wasm_slice_audio alloc_ok
     \<lparr>data = map Finite [0, 1, 2, 3, 4, 5, 6, 7, 8, 9], length_frames = 10, num_channels = 1,
      sample_rate = 44100\<rparr>
     1073741834 0 g_memory_buffer
   = Inr (3221225472, g_memory_buffer)
  \<and> wasm_slice_audio True
     \<lparr>data = map Finite [0, 1, 2, 3, 4, 5, 6, 7, 8, 9], length_frames = 10, num_channels = 1,
      sample_rate = 44100\<rparr>
     20 5 g_memory_buffer
   = Inl OutOfBounds
  \<and> wasm_slice_audio False
     \<lparr>data = map Finite [0, 1, 2, 3, 4, 5, 6, 7, 8, 9], length_frames = 10, num_channels = 1,
      sample_rate = 44100\<rparr>
     20 5 g_memory_buffer
   = Inr (0, g_memory_buffer)"
  by (simp add: wasm_slice_audio_def mem_eval)

section \<open>The crossfade scenario\<close>

text \<open>
  Claim C4 as stated fails: crossfading the mono buffers \<open>[1,1,1,1]\<close> and \<open>[0,0,0,0]\<close> with
  \<open>fade_length = 2\<close> does not leave the samples \<open>[1, 1, 0, 1, 0, 0]\<close> in the arena.
\<close>

theorem cross_fade_scenario_counterexample:
  "result_samples 6 (wasm_cross_fade True
     \<lparr>data = [Finite 1, Finite 1, Finite 1, Finite 1], length_frames = 4, num_channels = 1,
      sample_rate = 44100\<rparr>
     \<lparr>data = [Finite 0, Finite 0, Finite 0, Finite 0], length_frames = 4, num_channels = 1,
      sample_rate = 44100\<rparr>
     2 \<lparr>data = NullPtr, length_frames = 0, num_channels = 0, sample_rate = 0\<rparr> g_memory_buffer)
   \<noteq> [Some (Finite 1), Some (Finite 1), Some (Finite 0), Some (Finite 1), Some (Finite 0),
       Some (Finite 0)]"
  by (simp add: wasm_cross_fade_def cross_fade_step_def mem_eval float_eval
        replicate_numeral_eval result_samples_def arena_floats_def load_f32_def upt_rec)

text \<open>
  Claim C4, amended.  The call returns 6 frames, and the samples are \<open>[1, 1, 0, 1/2, 0, 0]\<close>:
  by the rule \<open>fade_out = i / fade_length\<close> the weights of the second mixed frame are
  \<open>fade_out = fade_in = 1/2\<close>, so that frame is \<open>1 \<cdot> 1/2 + 0 \<cdot> 1/2\<close>.
\<close>

theorem cross_fade_scenario:
  "wasm_cross_fade True
     \<lparr>data = [Finite 1, Finite 1, Finite 1, Finite 1], length_frames = 4, num_channels = 1,
      sample_rate = 44100\<rparr>
     \<lparr>data = [Finite 0, Finite 0, Finite 0, Finite 0], length_frames = 4, num_channels = 1,
      sample_rate = 44100\<rparr>
     2 \<lparr>data = NullPtr, length_frames = 0, num_channels = 0, sample_rate = 0\<rparr> g_memory_buffer
   = Inr (6, \<lparr>data = ArenaPtr, length_frames = 6, num_channels = 1, sample_rate = 44100\<rparr>,
          \<lparr>buffer = Some (concat (map float_cells
              [Finite 1, Finite 1, Finite 0, Finite (1 / 2), Finite 0, Finite 0])),
           size_used = 24, capacity = 24\<rparr>)"
  by (simp add: wasm_cross_fade_def cross_fade_step_def mem_eval float_eval
        replicate_numeral_eval)

section \<open>Validation of a WAV header\<close>

text \<open>
  Claim C1 as stated fails: a header with the three magic words is accepted whatever its
  other fields say.  With \<open>sample_rate = 0\<close> (16 bits, mono, one sample \<open>0x7FFF\<close>) the call
  decodes the sample and returns 1; with \<open>bits_per_sample = 8\<close> (mono, \<open>data_size = 2\<close>) it
  returns 2 frames and decodes nothing; with \<open>channels = 0\<close> the division
  \<open>data_size / (channels * bytes_per_sample)\<close> is by zero.
\<close>

theorem wav_decode_validation_counterexample:
  "wasm_wav_to_audio_buffer True
     [0x52, 0x49, 0x46, 0x46, 0x26, 0, 0, 0, 0x57, 0x41, 0x56, 0x45, 0x66, 0x6D, 0x74, 0x20,
      0x10, 0, 0, 0, 1, 0, 1, 0, 0, 0, 0, 0, 0, 0, 0, 0, 2, 0, 0x10, 0,
      0x64, 0x61, 0x74, 0x61, 2, 0, 0, 0, 0xFF, 0x7F] 46
     \<lparr>data = NullPtr, length_frames = 0, num_channels = 0, sample_rate = 0\<rparr> g_memory_buffer
   = Inr (1, \<lparr>data = ArenaPtr, length_frames = 1, num_channels = 1, sample_rate = 0\<rparr>,
          \<lparr>buffer = Some (float_cells (Finite 1)), size_used = 4, capacity = 4\<rparr>)
  \<and> wasm_wav_to_audio_buffer True
     [0x52, 0x49, 0x46, 0x46, 0x26, 0, 0, 0, 0x57, 0x41, 0x56, 0x45, 0x66, 0x6D, 0x74, 0x20,
      0x10, 0, 0, 0, 1, 0, 1, 0, 0x44, 0xAC, 0, 0, 0x44, 0xAC, 0, 0, 1, 0, 8, 0,
      0x64, 0x61, 0x74, 0x61, 2, 0, 0, 0, 0xFF, 0x7F] 46
     \<lparr>data = NullPtr, length_frames = 0, num_channels = 0, sample_rate = 0\<rparr> g_memory_buffer
   = Inr (2, \<lparr>data = ArenaPtr, length_frames = 2, num_channels = 1, sample_rate = 44100\<rparr>,
          \<lparr>buffer = Some (replicate 8 Undef), size_used = 8, capacity = 8\<rparr>)
  \<and> wasm_wav_to_audio_buffer True
     [0x52, 0x49, 0x46, 0x46, 0x26, 0, 0, 0, 0x57, 0x41, 0x56, 0x45, 0x66, 0x6D, 0x74, 0x20,
      0x10, 0, 0, 0, 1, 0, 0, 0, 0x44, 0xAC, 0, 0, 0, 0, 0, 0, 0, 0, 0x10, 0,
      0x64, 0x61, 0x74, 0x61, 2, 0, 0, 0, 0xFF, 0x7F] 46
     \<lparr>data = NullPtr, length_frames = 0, num_channels = 0, sample_rate = 0\<rparr> g_memory_buffer
   = Inl DivByZero"
  by (simp add: wasm_wav_to_audio_buffer_def decode16_step_def read_u16_def read_u32_def
      rd16_def rd32_def magic_def mem_eval float_eval replicate_numeral_eval)

text \<open>
  Claim C1, amended.  For every byte buffer that holds at least 44 bytes and is passed with a
  size of at least 44, the call returns 0, and leaves the output descriptor and the arena as
  they were, unless the magic words \<open>RIFF\<close>, \<open>WAVE\<close> and \<open>fmt \<close> are at offsets 0, 8 and 12.
\<close>

theorem wav_decode_rejects_bad_magic:
  assumes "44 \<le> wav_size" and "44 \<le> length wav_data"
    and "take 4 wav_data \<noteq> magic ''RIFF'' \<or> take 4 (drop 8 wav_data) \<noteq> magic ''WAVE''
         \<or> take 4 (drop 12 wav_data) \<noteq> magic ''fmt ''"
  shows "wasm_wav_to_audio_buffer alloc_ok wav_data wav_size output m = Inr (0, output, m)"
proof -
  have s: "\<not> wav_size < 44" using assms(1) by (simp add: not_less)
  have l: "load_range wav_data 0 4 = Inr (take 4 wav_data)"
    "load_range wav_data 8 4 = Inr (take 4 (drop 8 wav_data))"
    "load_range wav_data 12 4 = Inr (take 4 (drop 12 wav_data))"
    using assms(2) by (simp_all add: load_range_def)
  show ?thesis
    using assms(3) by (auto simp: wasm_wav_to_audio_buffer_def s l and_then_def)
qed

theorem wav_decode_rejects_bad_magic_witness:
  "(44::u32) \<le> 44 \<and> 44 \<le> length (replicate 44 (0::u8))
   \<and> take 4 (replicate 44 (0::u8)) \<noteq> magic ''RIFF''
   \<and> wasm_wav_to_audio_buffer True (replicate 44 0) 44
        \<lparr>data = NullPtr, length_frames = 0, num_channels = 0, sample_rate = 0\<rparr> g_memory_buffer
      = Inr (0, \<lparr>data = NullPtr, length_frames = 0, num_channels = 0, sample_rate = 0\<rparr>,
             g_memory_buffer)"
proof -
  have a: "take 4 (replicate 44 (0::u8)) \<noteq> magic ''RIFF''"
    by (simp add: magic_def replicate_numeral_eval)
  show ?thesis
    using a wav_decode_rejects_bad_magic [of 44 "replicate 44 0" True
        "\<lparr>data = NullPtr, length_frames = 0, num_channels = 0, sample_rate = 0\<rparr>"
        g_memory_buffer]
    by simp
qed

section \<open>Size of the encoded file\<close>

lemma length_header_bytes: "length (header_bytes (wav_header len n_channels s_rate bits)) = 44"
  by (simp add: header_bytes_def wav_header_def Let_def magic_def le16_def le32_def)

lemma total_size_unat:
  assumes "unat n_channels * (unat bits div 8) < 2 ^ 16"
    and "spec_wav_size len n_channels bits < 2 ^ 32"
  shows "unat (44 + len * ucast (n_channels * (bits div 8)) :: u32) = spec_wav_size len n_channels bits"
proof -
  have b: "unat (n_channels * (bits div 8)) = unat n_channels * (unat bits div 8)"
    using assms(1) unat_mult_u16 [of n_channels "bits div 8"] by (simp add: unat_div)
  have p: "unat len * (unat n_channels * (unat bits div 8)) < 2 ^ 32"
    using assms(2) by (simp add: spec_wav_size_def mult.assoc)
  have d: "unat (len * ucast (n_channels * (bits div 8)) :: u32)
           = unat len * (unat n_channels * (unat bits div 8))"
    using p unat_mult_u32 [of len "ucast (n_channels * (bits div 8))"]
    by (simp add: unat_ucast_16_32 b)
  show ?thesis
    using assms(2) d unat_add_u32 [of 44 "len * ucast (n_channels * (bits div 8))"]
    by (simp add: spec_wav_size_def mult.assoc)
qed

text \<open>
  The arena after a successful call: the header, the payload of the samples, and behind
  them what the block held before.
\<close>

lemma length_pcm_payload:
  "length (pcm_payload bits xs)
   = (if bits = 16 then 2 * length xs else if bits = 24 then 3 * length xs else 0)"
  by (simp add: pcm_payload_def)

lemma length_grown_block:
  "arena_ok m \<Longrightarrow> length (grown_block m n) = max (unat (capacity m)) n"
  by (cases "buffer m") (auto simp: arena_ok_def grown_block_def Let_def)

lemma encode_block:
  assumes ba: "unat n_channels * (unat bits div 8) < 2 ^ 16"
    and T: "spec_wav_size len n_channels bits < 2 ^ 32"
    and samples: "unat len * unat n_channels \<le> length audio_data"
    and ok: "arena_ok m"
    and alloc: "alloc_ok \<or> spec_wav_size len n_channels bits \<le> unat (capacity m)"
  shows "wasm_audio_buffer_to_wav alloc_ok audio_data len n_channels s_rate bits m
         = Inr (of_nat (spec_wav_size len n_channels bits),
                \<lparr>buffer = Some
                   (map Byte (header_bytes (wav_header len n_channels s_rate bits))
                    @ map Byte (pcm_payload bits (take (unat len * unat n_channels) audio_data))
                    @ drop (44 + length (pcm_payload bits (take (unat len * unat n_channels) audio_data)))
                        (grown_block m (spec_wav_size len n_channels bits))),
                 size_used = of_nat (spec_wav_size len n_channels bits),
                 capacity = max (capacity m) (of_nat (spec_wav_size len n_channels bits))\<rparr>)"
proof -
  let ?T = "spec_wav_size len n_channels bits"
  let ?total = "44 + len * ucast (n_channels * (bits div 8)) :: u32"
  let ?hdr = "map Byte (header_bytes (wav_header len n_channels s_rate bits))"
  let ?n = "unat len * unat n_channels"
  let ?pay = "pcm_payload bits (take ?n audio_data)"
  let ?g = "grown_block m ?T"
  have uT: "unat ?total = ?T" by (rule total_size_unat [OF ba T])
  have wT: "of_nat ?T = ?total" unfolding uT [symmetric] by (simp only: of_nat_unat ucast_id)
  have T44: "44 \<le> ?T" by (simp add: spec_wav_size_def)
  have al: "alloc_ok \<or> ?total \<le> capacity m" using alloc uT by (simp add: word_le_nat_alt)
  have gl: "length ?g = max (unat (capacity m)) ?T" by (rule length_grown_block [OF ok])
  have buf: "(if capacity m < ?total then Some (grown_block m (unat ?total)) else buffer m) = Some ?g"
  proof (cases "capacity m < ?total")
    case True
    then show ?thesis by (simp add: uT)
  next
    case False
    then have le: "?T \<le> unat (capacity m)" using uT by (simp add: word_less_nat_alt)
    then have "0 < capacity m" using T44 by (simp add: word_less_nat_alt)
    from arena_ok_SomeD [OF ok this] obtain blk where "buffer m = Some blk" by auto
    then show ?thesis using False le by (simp add: grown_block_def)
  qed
  have gr: "grow alloc_ok ?total m
            = Some \<lparr>buffer = Some ?g, size_used = size_used m, capacity = max (capacity m) ?total\<rparr>"
    using grow_block [OF ok al] buf by simp
  have room: "?T \<le> length ?g" using gl by simp
  have "0 + length ?hdr \<le> length ?g" using room T44 by (simp add: length_header_bytes)
  from store_cells_Some [OF this]
  have st: "store_cells (Some ?g) 0 ?hdr = Inr (Some (?hdr @ drop 44 ?g))"
    by (simp add: length_header_bytes)
  let ?b0 = "?hdr @ drop 44 ?g"
  have b0: "length ?b0 = length ?g" "take 44 ?b0 = ?hdr"
    using room T44 by (simp_all add: length_header_bytes)
  have ln: "length (take ?n audio_data) = ?n" using samples by simp
  have dr: "drop (44 + k) ?b0 = drop (44 + k) ?g" for k
    by (simp add: length_header_bytes add.commute)
  have loop: "(if bits = 16
               then for_loop 0 (unat (len * ucast n_channels)) (encode16_step audio_data) (Some ?b0)
               else if bits = 24
               then for_loop 0 (unat (len * ucast n_channels)) (encode24_step audio_data) (Some ?b0)
               else Inr (Some ?b0))
              = Inr (Some (?hdr @ map Byte ?pay @ drop (44 + length ?pay) ?g))"
  proof -
    consider (b16) "bits = 16" | (b24) "bits = 24" | (other) "bits \<noteq> 16" "bits \<noteq> 24" by blast
    then show ?thesis
    proof cases
      case b16
      then have Teq: "?T = 44 + ?n * 2" by (simp add: spec_wav_size_def)
      then have "?n < 2 ^ 32" using T by simp
      then have n: "unat (len * ucast n_channels) = ?n"
        using unat_mult_u32 [of len "ucast n_channels"] by (simp add: unat_ucast_16_32)
      have "44 + 2 * ?n \<le> length ?b0" using room Teq b0(1) by simp
      from encode16_payload [OF samples this] show ?thesis
        unfolding b0(2) dr using b16 n ln by (simp add: pcm_payload_def)
    next
      case b24
      then have Teq: "?T = 44 + ?n * 3" by (simp add: spec_wav_size_def)
      then have lt: "3 * ?n < 2 ^ 32" using T by simp
      then have "?n < 2 ^ 32" by simp
      then have n: "unat (len * ucast n_channels) = ?n"
        using unat_mult_u32 [of len "ucast n_channels"] by (simp add: unat_ucast_16_32)
      have "44 + 3 * ?n \<le> length ?b0" using room Teq b0(1) by simp
      from encode24_payload [OF samples this lt] show ?thesis
        unfolding b0(2) dr using b24 n ln by (simp add: pcm_payload_def)
    next
      case other
      then show ?thesis by (simp add: pcm_payload_def)
    qed
  qed
  show ?thesis
    unfolding wT
    using gr st loop
    by (simp add: wasm_audio_buffer_to_wav_def Let_def)
qed

text \<open>
  Claim C3 as stated fails: with \<open>bits_per_sample = 8\<close>, which is neither 16 nor 24, the
  encoder writes the header for one mono frame and returns 45, not 0.
\<close>

theorem encode_unsupported_depth_counterexample:
  "returned (wasm_audio_buffer_to_wav True [Finite 0] 1 1 44100 8 g_memory_buffer) = Some 45"
  by (simp add: wasm_audio_buffer_to_wav_def wav_header_def returned_def header_bytes_def
      le16_def le32_def magic_def mem_eval replicate_numeral_eval)

text \<open>
  Claim C3, amended.  Let \<open>T = 44 + length \<cdot> channels \<cdot> (bits_per_sample / 8)\<close>, with
  \<open>channels \<cdot> (bits_per_sample / 8)\<close> below \<open>2^16\<close> and \<open>T\<close> below \<open>2^32\<close>, let the input hold
  \<open>length \<cdot> channels\<close> samples and the storage of the arena have \<open>capacity\<close> bytes (none when
  the capacity is 0).  If the arena already has \<open>T\<close> bytes or the allocation succeeds, the
  call returns \<open>T\<close> and sets \<open>used = T\<close>, for every \<open>bits_per_sample\<close>; the block, of
  \<open>max capacity T\<close> bytes, then starts with the 44 bytes of the header followed by the payload,
  and keeps behind them what it held before (undefined bytes where it has grown).  At 16 and
  24 bits the payload is the little-endian codes of the \<open>length \<cdot> channels\<close> samples, so
  that header and payload are the \<open>T\<close> bytes of the file.  At any other depth the payload is
  empty: only the 44 bytes of the header are written, the bytes \<open>44 .. T - 1\<close> are whatever
  the block held, and the call still returns \<open>T\<close>.  If the arena is smaller than \<open>T\<close> and the
  allocation fails, the call returns 0 and leaves the arena as it was.
\<close>

theorem encode_returns_total:
  assumes "unat n_channels * (unat bits div 8) < 2 ^ 16"
    and "spec_wav_size len n_channels bits < 2 ^ 32"
    and "unat len * unat n_channels \<le> length audio_data"
    and "arena_ok m"
  shows "(alloc_ok \<or> spec_wav_size len n_channels bits \<le> unat (capacity m) \<longrightarrow>
            wasm_audio_buffer_to_wav alloc_ok audio_data len n_channels s_rate bits m
            = Inr (of_nat (spec_wav_size len n_channels bits),
                   \<lparr>buffer = Some
                      (map Byte (header_bytes (wav_header len n_channels s_rate bits))
                       @ map Byte (pcm_payload bits (take (unat len * unat n_channels) audio_data))
                       @ drop (44 + length (pcm_payload bits (take (unat len * unat n_channels) audio_data)))
                           (grown_block m (spec_wav_size len n_channels bits))),
                    size_used = of_nat (spec_wav_size len n_channels bits),
                    capacity = max (capacity m) (of_nat (spec_wav_size len n_channels bits))\<rparr>))
       \<and> length (header_bytes (wav_header len n_channels s_rate bits)) = 44
       \<and> (bits = 16 \<or> bits = 24 \<longrightarrow>
            44 + length (pcm_payload bits (take (unat len * unat n_channels) audio_data))
            = spec_wav_size len n_channels bits)
       \<and> (bits \<noteq> 16 \<and> bits \<noteq> 24 \<longrightarrow>
            pcm_payload bits (take (unat len * unat n_channels) audio_data) = [])
       \<and> length (grown_block m (spec_wav_size len n_channels bits))
           = max (unat (capacity m)) (spec_wav_size len n_channels bits)
       \<and> (\<not> alloc_ok \<and> unat (capacity m) < spec_wav_size len n_channels bits \<longrightarrow>
            wasm_audio_buffer_to_wav alloc_ok audio_data len n_channels s_rate bits m = Inr (0, m))"
proof -
  let ?T = "spec_wav_size len n_channels bits"
  let ?total = "44 + len * ucast (n_channels * (bits div 8)) :: u32"
  have uT: "unat ?total = ?T" by (rule total_size_unat [OF assms(1,2)])
  have fail: "wasm_audio_buffer_to_wav alloc_ok audio_data len n_channels s_rate bits m = Inr (0, m)"
    if "\<not> alloc_ok" "unat (capacity m) < ?T"
  proof -
    have "capacity m < ?total" using that(2) uT by (simp add: word_less_nat_alt)
    then have "grow alloc_ok ?total m = None" using that(1) by (rule grow_fail [rotated])
    then show ?thesis by (simp add: wasm_audio_buffer_to_wav_def Let_def)
  qed
  have len16: "bits = 16 \<or> bits = 24 \<Longrightarrow>
      44 + length (pcm_payload bits (take (unat len * unat n_channels) audio_data)) = ?T"
    using assms(3) by (auto simp: length_pcm_payload spec_wav_size_def)
  have other: "bits \<noteq> 16 \<and> bits \<noteq> 24 \<Longrightarrow>
      pcm_payload bits (take (unat len * unat n_channels) audio_data) = []"
    by (simp add: pcm_payload_def)
  show ?thesis
    using encode_block [OF assms, of alloc_ok s_rate] fail len16 other
      length_header_bytes [of len n_channels s_rate bits] length_grown_block [OF assms(4), of ?T]
    by blast
qed

theorem encode_returns_total_witness:
  "unat (1::u16) * (unat (16::u16) div 8) < 2 ^ 16
   \<and> spec_wav_size 1 1 16 < 2 ^ 32
   \<and> unat (1::u32) * unat (1::u16) \<le> length [Finite 1]
   \<and> arena_ok g_memory_buffer
   \<and> unat (capacity g_memory_buffer) < spec_wav_size 1 1 16
   \<and> wasm_audio_buffer_to_wav True [Finite 1] 1 1 44100 16 g_memory_buffer
       = Inr (46, \<lparr>buffer = Some (map Byte (header_bytes (wav_header 1 1 44100 16))
                                   @ [Byte 0xFF, Byte 0x7F]),
                   size_used = 46, capacity = 46\<rparr>)
   \<and> wasm_audio_buffer_to_wav False [Finite 1] 1 1 44100 16 g_memory_buffer
       = Inr (0, g_memory_buffer)"
proof -
  have h: "unat (1::u16) * (unat (16::u16) div 8) < 2 ^ 16" "spec_wav_size 1 1 16 < 2 ^ 32"
    "unat (1::u32) * unat (1::u16) \<le> length [Finite 1]" "arena_ok g_memory_buffer"
    by (simp_all add: spec_wav_size_def arena_ok_def g_memory_buffer_def)
  have c: "unat (capacity g_memory_buffer) < spec_wav_size 1 1 16"
    by (simp add: spec_wav_size_def g_memory_buffer_def)
  have t: "spec_wav_size 1 1 16 = 46" by (simp add: spec_wav_size_def)
  have p: "pcm_payload 16 [Finite 1] = [0xFF, 0x7F]"
    by (simp add: pcm_payload_def code16_def spec_clamp_def float_quantize_endpoints le16_def)
  have g: "drop 46 (grown_block g_memory_buffer 46) = []"
    by (simp add: grown_block_def g_memory_buffer_def)
  have k: "max (capacity g_memory_buffer) 46 = 46" by (simp add: g_memory_buffer_def)
  show ?thesis
    using h c encode_returns_total [OF h, of True 44100] encode_returns_total [OF h, of False 44100]
    by (simp add: t p g k)
qed

section \<open>Quantisation of the samples\<close>

lemma concat_chunk:
  assumes "\<And>x. length (f x) = k" "i < length xs"
  shows "take k (drop (k * i) (concat (map f xs))) = f (xs ! i)"
  using assms(2)
proof (induction xs arbitrary: i)
  case Nil
  then show ?case by simp
next
  case (Cons x xs)
  show ?case
  proof (cases i)
    case 0
    then show ?thesis using assms(1) [of x] by simp
  next
    case (Suc j)
    then have "j < length xs" using Cons.prems by simp
    from Cons.IH [OF this] show ?thesis using Suc assms(1) [of x] by simp
  qed
qed

text \<open>
  Claim C6 as stated fails: the scaling is not the truncation of the exact product.  The
  product is a \<open>float\<close> product, rounded to the nearest \<open>float\<close> before the fraction is
  dropped.  For the sample \<open>0.7f = 11744051 / 2^24\<close> at 24 bits the exact product with
  \<open>2^23 - 1\<close> is \<open>5872024.79...\<close>, which truncates to 5872024 (bytes \<open>98 99 59\<close>); the nearest
  \<open>float\<close> is 5872025, and the encoder writes the bytes \<open>99 99 59\<close>.
\<close>

theorem encode_rounds_product_counterexample:
  "wasm_audio_buffer_to_wav True [Finite (11744051 / 16777216)] 1 1 44100 24 g_memory_buffer
     = Inr (47, \<lparr>buffer = Some (map Byte (header_bytes (wav_header 1 1 44100 24))
                                 @ [Byte 0x99, Byte 0x99, Byte 0x59]),
                 size_used = 47, capacity = 47\<rparr>)
   \<and> spec_quantize 24 (spec_clamp (Finite (11744051 / 16777216))) = 5872024
   \<and> le24 (word_of_int 5872024) = [0x98, 0x99, 0x59]"
  by (simp add: wasm_audio_buffer_to_wav_def wav_header_def header_bytes_def
      le16_def le32_def le24_def magic_def mem_eval replicate_numeral_eval
      encode24_step_def quantize24_def clamp_sample_def float_eval
      spec_quantize_def spec_clamp_def)

text \<open>
  Claim C6, amended.  Under the conditions of a successful encoding (see C3), at 16 or 24
  bits, the bytes the encoder stores for sample \<open>i\<close>, at offset \<open>44 + i \<cdot> B / 8\<close>, are the
  little-endian two's complement code \<open>q\<close> of the clamped sample \<open>c\<close>, where:
  \<^item> \<open>c\<close> is the sample clamped to \<open>[-1, 1]\<close>: the sample itself inside the interval, 1 above
    it (for \<open>+\<infinity>\<close> and NaN as well) and \<open>-1\<close> below it (for \<open>-\<infinity>\<close> as well);
  \<^item> \<open>q\<close> is the \<open>float\<close> product of \<open>c\<close> with \<open>2^(B-1)\<close> (negative \<open>c\<close>) or \<open>2^(B-1) - 1\<close>
    (non-negative \<open>c\<close>), rounded to the nearest \<open>float\<close> and then truncated toward zero;
  \<^item> \<open>q\<close> is the truncation of the exact product or the next integer away from zero, and
    it is the truncation of the exact product when that product is a \<open>float\<close>;
  \<^item> \<open>-2^(B-1) \<le> q \<le> 2^(B-1) - 1\<close>, so that the code never wraps; \<open>c = 1\<close> gives
    \<open>2^(B-1) - 1\<close> (\<open>0x7FFF\<close> at 16 bits) and \<open>c = -1\<close> gives \<open>-2^(B-1)\<close> (\<open>0x8000\<close>).
\<close>

theorem encode_quantizes_samples:
  assumes "unat n_channels * (unat bits div 8) < 2 ^ 16"
    and "spec_wav_size len n_channels bits < 2 ^ 32"
    and "unat len * unat n_channels \<le> length audio_data"
    and "arena_ok m"
    and "alloc_ok \<or> spec_wav_size len n_channels bits \<le> unat (capacity m)"
    and "i < unat len * unat n_channels"
    and "B = 16 \<or> B = 24"
  shows "let c = spec_clamp (audio_data ! i); q = float_quantize B c in
         (\<exists>blk. wasm_audio_buffer_to_wav alloc_ok audio_data len n_channels s_rate bits m
                  = Inr (of_nat (spec_wav_size len n_channels bits),
                         \<lparr>buffer = Some blk,
                          size_used = of_nat (spec_wav_size len n_channels bits),
                          capacity = max (capacity m) (of_nat (spec_wav_size len n_channels bits))\<rparr>)
            \<and> (bits = 16 \<longrightarrow> take 2 (drop (44 + 2 * i) blk)
                   = map Byte (le16 (word_of_int (float_quantize 16 c))))
            \<and> (bits = 24 \<longrightarrow> take 3 (drop (44 + 3 * i) blk)
                   = map Byte (le24 (word_of_int (float_quantize 24 c)))))
       \<and> clamp_sample (audio_data ! i) = Finite c
       \<and> - 1 \<le> c \<and> c \<le> 1
       \<and> (\<forall>x. audio_data ! i = Finite x \<and> - 1 \<le> x \<and> x \<le> 1 \<longrightarrow> c = x)
       \<and> (\<forall>x. audio_data ! i = Finite x \<and> 1 < x \<longrightarrow> c = 1)
       \<and> (\<forall>x. audio_data ! i = Finite x \<and> x < - 1 \<longrightarrow> c = - 1)
       \<and> (audio_data ! i = PInf \<longrightarrow> c = 1)
       \<and> (audio_data ! i = NInf \<longrightarrow> c = - 1)
       \<and> (audio_data ! i = NaN \<longrightarrow> c = 1)
       \<and> - (2 ^ (B - 1)) \<le> q \<and> q \<le> 2 ^ (B - 1) - 1
       \<and> (0 \<le> c \<longrightarrow> spec_quantize B c \<le> q \<and> q \<le> spec_quantize B c + 1)
       \<and> (c < 0 \<longrightarrow> spec_quantize B c - 1 \<le> q \<and> q \<le> spec_quantize B c)
       \<and> (is_float binary32 (c * (if c < 0 then 2 ^ (B - 1) else 2 ^ (B - 1) - 1))
            \<longrightarrow> q = spec_quantize B c)
       \<and> (c = 1 \<longrightarrow> q = 2 ^ (B - 1) - 1)
       \<and> (c = - 1 \<longrightarrow> q = - (2 ^ (B - 1)))
       \<and> (c = 1 \<longrightarrow> (word_of_int (float_quantize 16 c) :: u16) = 0x7FFF)
       \<and> (c = - 1 \<longrightarrow> (word_of_int (float_quantize 16 c) :: u16) = 0x8000)
       \<and> sint (word_of_int (float_quantize 16 c) :: u16) = float_quantize 16 c"
proof -
  define c where "c = spec_clamp (audio_data ! i)"
  define q where "q = float_quantize B c"
  let ?T = "spec_wav_size len n_channels bits"
  let ?n = "unat len * unat n_channels"
  let ?xs = "take ?n audio_data"
  let ?hdr = "map Byte (header_bytes (wav_header len n_channels s_rate bits))"
  let ?pay = "pcm_payload bits ?xs"
  let ?blk = "?hdr @ map Byte ?pay @ drop (44 + length ?pay) (grown_block m ?T)"
  have il: "i < length ?xs" using assms(3,6) by simp
  have xi: "?xs ! i = audio_data ! i" using assms(6) by simp
  have dr: "drop (44 + k) ?blk = drop k (map Byte ?pay @ drop (44 + length ?pay) (grown_block m ?T))"
    for k by (simp add: length_header_bytes add.commute)
  have b16: "take 2 (drop (44 + 2 * i) ?blk) = map Byte (le16 (word_of_int (float_quantize 16 c)))"
    if "bits = 16"
  proof -
    have l: "2 * i + 2 \<le> length (concat (map code16 ?xs))"
      unfolding length_concat_code16 using il by linarith
    have "take 2 (drop (2 * i) (concat (map code16 ?xs))) = code16 (?xs ! i)"
      by (rule concat_chunk [OF _ il]) simp
    then have "take 2 (drop (2 * i) (map Byte (concat (map code16 ?xs))))
               = map Byte (code16 (audio_data ! i))"
      by (simp add: xi take_map drop_map)
    then show ?thesis
      unfolding dr using that l by (simp add: pcm_payload_def code16_def c_def)
  qed
  have b24: "take 3 (drop (44 + 3 * i) ?blk) = map Byte (le24 (word_of_int (float_quantize 24 c)))"
    if "bits = 24"
  proof -
    have l: "3 * i + 3 \<le> length (concat (map code24 ?xs))"
      unfolding length_concat_code24 using il by linarith
    have "take 3 (drop (3 * i) (concat (map code24 ?xs))) = code24 (?xs ! i)"
      by (rule concat_chunk [OF _ il]) simp
    then have "take 3 (drop (3 * i) (map Byte (concat (map code24 ?xs))))
               = map Byte (code24 (audio_data ! i))"
      by (simp add: xi take_map drop_map)
    then show ?thesis
      unfolding dr using that l by (simp add: pcm_payload_def code24_def c_def)
  qed
  have enc: "\<exists>blk. wasm_audio_buffer_to_wav alloc_ok audio_data len n_channels s_rate bits m
                  = Inr (of_nat ?T, \<lparr>buffer = Some blk, size_used = of_nat ?T,
                                     capacity = max (capacity m) (of_nat ?T)\<rparr>)
            \<and> (bits = 16 \<longrightarrow> take 2 (drop (44 + 2 * i) blk)
                   = map Byte (le16 (word_of_int (float_quantize 16 c))))
            \<and> (bits = 24 \<longrightarrow> take 3 (drop (44 + 3 * i) blk)
                   = map Byte (le24 (word_of_int (float_quantize 24 c))))"
    using encode_block [OF assms(1-5), of s_rate] b16 b24 by blast
  have cl: "clamp_sample (audio_data ! i) = Finite c" by (simp add: clamp_sample_spec c_def)
  have r: "- 1 \<le> c" "c \<le> 1" using spec_clamp_range [of "audio_data ! i"] by (simp_all add: c_def)
  have sat: "\<forall>x. audio_data ! i = Finite x \<and> - 1 \<le> x \<and> x \<le> 1 \<longrightarrow> c = x"
    "\<forall>x. audio_data ! i = Finite x \<and> 1 < x \<longrightarrow> c = 1"
    "\<forall>x. audio_data ! i = Finite x \<and> x < - 1 \<longrightarrow> c = - 1"
    "audio_data ! i = PInf \<longrightarrow> c = 1" "audio_data ! i = NInf \<longrightarrow> c = - 1"
    "audio_data ! i = NaN \<longrightarrow> c = 1"
    by (auto simp: c_def spec_clamp_def)
  have rng: "- (2 ^ (B - 1)) \<le> q \<and> q \<le> 2 ^ (B - 1) - 1"
    using assms(7) quantize16_spec(2,3) [of "audio_data ! i"] quantize24_spec(2,3) [of "audio_data ! i"]
    by (auto simp: q_def c_def)
  have near: "0 \<le> c \<longrightarrow> spec_quantize B c \<le> q \<and> q \<le> spec_quantize B c + 1"
    "c < 0 \<longrightarrow> spec_quantize B c - 1 \<le> q \<and> q \<le> spec_quantize B c"
    using float_quantize_near [OF r assms(7)] by (simp_all add: q_def)
  have ex: "is_float binary32 (c * (if c < 0 then 2 ^ (B - 1) else 2 ^ (B - 1) - 1))
            \<longrightarrow> q = spec_quantize B c"
    using float_quantize_exact [of c B] by (simp add: q_def)
  have ends: "c = 1 \<longrightarrow> q = 2 ^ (B - 1) - 1" "c = - 1 \<longrightarrow> q = - (2 ^ (B - 1))"
    using assms(7) float_quantize_endpoints by (auto simp: q_def)
  have w: "c = 1 \<longrightarrow> (word_of_int (float_quantize 16 c) :: u16) = 0x7FFF"
    "c = - 1 \<longrightarrow> (word_of_int (float_quantize 16 c) :: u16) = 0x8000"
    using float_quantize_endpoints by auto
  have s: "sint (word_of_int (float_quantize 16 c) :: u16) = float_quantize 16 c"
    using sint_code16 [OF quantize16_spec(2,3) [of "audio_data ! i"]] by (simp add: c_def)
  show ?thesis
    unfolding Let_def c_def [symmetric] q_def [symmetric]
    using enc cl r sat rng near ex ends w s by blast
qed

theorem encode_quantizes_samples_witness:
  "unat (1::u16) * (unat (16::u16) div 8) < 2 ^ 16
   \<and> spec_wav_size 1 1 16 < 2 ^ 32
   \<and> unat (1::u32) * unat (1::u16) \<le> length [Finite 2]
   \<and> arena_ok g_memory_buffer
   \<and> (0::nat) < unat (1::u32) * unat (1::u16)
   \<and> spec_clamp ([Finite 2] ! 0) = 1
   \<and> float_quantize 16 1 = 32767
   \<and> spec_quantize 16 1 = 32767
   \<and> (\<exists>blk. wasm_audio_buffer_to_wav True [Finite 2] 1 1 44100 16 g_memory_buffer
               = Inr (46, \<lparr>buffer = Some blk, size_used = 46, capacity = 46\<rparr>)
             \<and> take 2 (drop 44 blk) = [Byte 0xFF, Byte 0x7F])"
proof -
  have h: "unat (1::u16) * (unat (16::u16) div 8) < 2 ^ 16" "spec_wav_size 1 1 16 < 2 ^ 32"
    "unat (1::u32) * unat (1::u16) \<le> length [Finite 2]" "arena_ok g_memory_buffer"
    "True \<or> spec_wav_size 1 1 16 \<le> unat (capacity g_memory_buffer)"
    "(0::nat) < unat (1::u32) * unat (1::u16)" "(16::nat) = 16 \<or> (16::nat) = 24"
    by (simp_all add: spec_wav_size_def arena_ok_def g_memory_buffer_def)
  have t: "spec_wav_size 1 1 16 = 46" by (simp add: spec_wav_size_def)
  have c: "spec_clamp (Finite 2) = 1" by (simp add: spec_clamp_def)
  have s: "spec_quantize 16 1 = 32767" by (simp add: spec_quantize_def trunc_def)
  have k: "max (capacity g_memory_buffer) 46 = 46" by (simp add: g_memory_buffer_def)
  have b: "le16 32767 = [0xFF, 0x7F]" by (simp add: le16_def)
  show ?thesis
    using h(1-4,6) encode_quantizes_samples [OF h, of 44100]
    by (simp add: Let_def t c s k b float_quantize_endpoints)
qed

section \<open>Merging buffers\<close>

text \<open>
  Claim C7 as stated fails: two mono descriptors of 3 and 5 frames that share channels and
  sample rate are merged into 0 frames, not 8, when the arena has to grow and the allocation
  fails; the output descriptor and the arena are left as they were.
\<close>

theorem merge_allocation_failure_counterexample:
  "wasm_merge_audio_buffers False
        [\<lparr>data = [Finite 1, Finite 2, Finite 3], length_frames = 3, num_channels = 1, sample_rate = 8000\<rparr>,
         \<lparr>data = [Finite 4, Finite 5, Finite 6, Finite 7, Finite 8], length_frames = 5, num_channels = 1,
          sample_rate = 8000\<rparr>] 2
        \<lparr>data = NullPtr, length_frames = 0, num_channels = 0, sample_rate = 0\<rparr> g_memory_buffer
     = Inr (0, \<lparr>data = NullPtr, length_frames = 0, num_channels = 0, sample_rate = 0\<rparr>,
            g_memory_buffer)"
  by (simp add: wasm_merge_audio_buffers_def merge_total.simps mem_eval)

text \<open>
  Claim C7, amended.  For a nonempty array of \<open>num_buffers\<close> descriptors: if all share the
  channels \<open>C\<close> and the sample rate of the first, each addresses at least \<open>C\<close> times its
  length floats, the sum \<open>L\<close> of the lengths and the byte size \<open>4 \<cdot> C \<cdot> L\<close> are below \<open>2^32\<close>,
  the arena block has \<open>capacity\<close> bytes, and the arena holds \<open>4 \<cdot> C \<cdot> L\<close> bytes already or the
  allocation succeeds, then the call returns \<open>L\<close>, fills the output descriptor with the arena
  pointer, \<open>L\<close>, \<open>C\<close> and the sample rate, sets \<open>used = 4 \<cdot> C \<cdot> L\<close>, and frame \<open>j\<close> of channel
  \<open>c\<close> of buffer \<open>k\<close> is at float index \<open>c \<cdot> L + offset_k + j\<close> of the arena, \<open>offset_k\<close> being
  the sum of the lengths before \<open>k\<close>.  If some descriptor differs from the first in channels
  or sample rate, the call returns 0 and changes nothing.
\<close>

theorem merge_concatenates:
  fixes bs :: "fval list AudioBuffer list"
  assumes "bs \<noteq> []" and "unat num_buffers = length bs"
  shows "((\<forall>b\<in>set bs. num_channels b = num_channels (hd bs) \<and> sample_rate b = sample_rate (hd bs)
                     \<and> unat (num_channels (hd bs)) * frames b \<le> length (data b))
          \<and> merge_length bs < 2 ^ 32
          \<and> 4 * (unat (num_channels (hd bs)) * merge_length bs) < 2 ^ 32
          \<and> arena_ok m
          \<and> (alloc_ok \<or> 4 * (unat (num_channels (hd bs)) * merge_length bs) \<le> unat (capacity m))
          \<longrightarrow>
          (\<exists>m'. wasm_merge_audio_buffers alloc_ok bs num_buffers output m
                  = Inr (of_nat (merge_length bs),
                         \<lparr>data = arena_ptr m', length_frames = of_nat (merge_length bs),
                          num_channels = num_channels (hd bs), sample_rate = sample_rate (hd bs)\<rparr>,
                         m')
              \<and> size_used m' = of_nat (4 * (unat (num_channels (hd bs)) * merge_length bs))
              \<and> arena_ok m'
              \<and> (\<forall>k<length bs. \<forall>c<unat (num_channels (hd bs)). \<forall>j<frames (bs ! k).
                    loadf (buffer m') (c * merge_length bs + merge_offset bs k + j)
                      = Some (data (bs ! k) ! (c * frames (bs ! k) + j)))))
       \<and> ((\<exists>b\<in>set bs. num_channels b \<noteq> num_channels (hd bs) \<or> sample_rate b \<noteq> sample_rate (hd bs))
            \<longrightarrow> wasm_merge_audio_buffers alloc_ok bs num_buffers output m = Inr (0, output, m))"
proof -
  let ?C = "num_channels (hd bs)" and ?R = "sample_rate (hd bs)"
  let ?L = "merge_length bs"
  have nb: "num_buffers \<noteq> 0" using assms by (metis length_0_conv unat_0)
  have hd0: "load_elem bs 0 = Inr (hd bs)" using assms(1) by (simp add: load_elem_def hd_conv_nth)
  have bad: "wasm_merge_audio_buffers alloc_ok bs num_buffers output m = Inr (0, output, m)"
    if "\<exists>b\<in>set bs. num_channels b \<noteq> ?C \<or> sample_rate b \<noteq> ?R"
  proof -
    have "merge_total bs 0 (unat num_buffers) ?C ?R 0 = Inr None"
      using that assms(2) by (intro merge_total_mismatch) simp_all
    then show ?thesis using nb hd0 by (simp add: wasm_merge_audio_buffers_def)
  qed
  have good: "\<exists>m'. wasm_merge_audio_buffers alloc_ok bs num_buffers output m
                  = Inr (of_nat ?L, \<lparr>data = arena_ptr m', length_frames = of_nat ?L,
                                     num_channels = ?C, sample_rate = ?R\<rparr>, m')
              \<and> size_used m' = of_nat (4 * (unat ?C * ?L)) \<and> arena_ok m'
              \<and> (\<forall>k<length bs. \<forall>c<unat ?C. \<forall>j<frames (bs ! k).
                    loadf (buffer m') (c * ?L + merge_offset bs k + j)
                      = Some (data (bs ! k) ! (c * frames (bs ! k) + j)))"
    if same: "\<forall>b\<in>set bs. num_channels b = ?C \<and> sample_rate b = ?R
                        \<and> unat ?C * frames b \<le> length (data b)"
      and small: "?L < 2 ^ 32" "4 * (unat ?C * ?L) < 2 ^ 32"
      and ok: "arena_ok m" "alloc_ok \<or> 4 * (unat ?C * ?L) \<le> unat (capacity m)"
  proof -
    define total :: u32 where "total = sum_list (map length_frames bs)"
    have mp: "map unat (map length_frames bs) = map frames bs" by (simp add: frames_def)
    have ut: "unat total = ?L"
      using small(1) unat_sum_list_u32 [of "map length_frames bs"]
      by (simp add: total_def merge_length_def mp del: map_map)
    have wt: "of_nat ?L = total" unfolding ut [symmetric] by (simp only: of_nat_unat ucast_id)
    have tot: "merge_total bs 0 (unat num_buffers) ?C ?R 0 = Inr (Some total)"
      using same assms(2) merge_total_all [of "unat num_buffers" bs 0 ?C ?R 0]
      by (simp add: total_def)
    define buffer_size :: u32 where "buffer_size = total * ucast ?C * 4"
    have "unat total * unat ?C < 2 ^ 32" using small(2) ut by (simp add: mult.commute)
    then have u1: "unat (total * ucast ?C) = unat total * unat ?C"
      using unat_mult_u32 [of total "ucast ?C"] by (simp add: unat_ucast_16_32)
    have ub: "unat buffer_size = 4 * (unat ?C * ?L)"
      using small(2) u1 ut unat_mult_u32 [of "total * ucast ?C" 4]
      by (simp add: buffer_size_def mult.commute)
    have wb: "of_nat (4 * (unat ?C * ?L)) = buffer_size"
      unfolding ub [symmetric] by (simp only: of_nat_unat ucast_id)
    have "alloc_ok \<or> buffer_size \<le> capacity m" using ok(2) ub by (simp add: word_le_nat_alt)
    from grow_ok [OF ok(1) this]
    obtain m1 where m1: "grow alloc_ok buffer_size m = Some m1" "arena_ok m1"
      "buffer_size \<le> capacity m1" by auto
    have bl1: "blen (buffer m1) = unat (capacity m1)" using m1(2) by (simp add: arena_ok_blen)
    have room: "4 * (unat ?C * ?L) \<le> blen (buffer m1)"
      using m1(3) ub bl1 by (simp add: word_le_nat_alt)
    have wf: "\<forall>b\<in>set bs. unat ?C * frames b \<le> length (data b)" using same by blast
    from merge_copy_loop [OF wf small(2) small(1) room ut refl]
    obtain buf' off where lp:
      "for_loop 0 (length bs) (merge_copy_step bs ?C total) (buffer m1, 0) = Inr (buf', off)"
      "blen buf' = blen (buffer m1)" "(buf' = None) = (buffer m1 = None)"
      "\<forall>k<length bs. \<forall>c<unat ?C. \<forall>j<frames (bs ! k).
          loadf buf' (c * ?L + merge_offset bs k + j) = Some (data (bs ! k) ! (c * frames (bs ! k) + j))"
      by (elim exE conjE) (rule that, assumption+)
    define m' where "m' = m1\<lparr>buffer := buf', size_used := buffer_size\<rparr>"
    have ptr: "arena_ptr (m1\<lparr>buffer := buf', size_used := buffer_size\<rparr>) = arena_ptr m1"
      using lp(3) by (cases buf'; cases "buffer m1") (simp_all add: arena_ptr_def)
    have run: "wasm_merge_audio_buffers alloc_ok bs num_buffers output m
                = Inr (total, \<lparr>data = arena_ptr m', length_frames = total,
                                 num_channels = ?C, sample_rate = ?R\<rparr>, m')"
      using nb hd0 tot m1(1) lp(1) assms(2)
      by (simp add: wasm_merge_audio_buffers_def Let_def buffer_size_def [symmetric] ptr m'_def)
    have okm': "arena_ok m'" using lp(2) bl1 by (simp add: arena_ok_blen m'_def)
    have su: "size_used m' = of_nat (4 * (unat ?C * ?L))"
      unfolding wb by (simp add: m'_def)
    have run': "wasm_merge_audio_buffers alloc_ok bs num_buffers output m
                = Inr (of_nat ?L, \<lparr>data = arena_ptr m', length_frames = of_nat ?L,
                                 num_channels = ?C, sample_rate = ?R\<rparr>, m')"
      unfolding wt by (rule run)
    have ld: "\<forall>k<length bs. \<forall>c<unat ?C. \<forall>j<frames (bs ! k).
          loadf (buffer m') (c * ?L + merge_offset bs k + j)
            = Some (data (bs ! k) ! (c * frames (bs ! k) + j))"
      using lp(4) by (simp add: m'_def)
    show ?thesis
      using run' su okm' ld by (intro exI [of _ m'] conjI)
  qed
  show ?thesis using good bad by blast
qed

theorem merge_concatenates_witness:
  "[\<lparr>data = [Finite 1, Finite 2, Finite 3], length_frames = 3, num_channels = 1, sample_rate = 8000\<rparr>,
    \<lparr>data = [Finite 4, Finite 5, Finite 6, Finite 7, Finite 8], length_frames = 5, num_channels = 1,
     sample_rate = 8000\<rparr>] \<noteq> []
   \<and> arena_ok g_memory_buffer
   \<and> returned (wasm_merge_audio_buffers True
        [\<lparr>data = [Finite 1, Finite 2, Finite 3], length_frames = 3, num_channels = 1, sample_rate = 8000\<rparr>,
         \<lparr>data = [Finite 4, Finite 5, Finite 6, Finite 7, Finite 8], length_frames = 5, num_channels = 1,
          sample_rate = 8000\<rparr>] 2
        \<lparr>data = NullPtr, length_frames = 0, num_channels = 0, sample_rate = 0\<rparr> g_memory_buffer)
     = Some 8
   \<and> wasm_merge_audio_buffers True
        [\<lparr>data = [Finite 1, Finite 2, Finite 3], length_frames = 3, num_channels = 1, sample_rate = 8000\<rparr>,
         \<lparr>data = [Finite 4, Finite 5, Finite 6, Finite 7, Finite 8], length_frames = 5, num_channels = 1,
          sample_rate = 16000\<rparr>] 2
        \<lparr>data = NullPtr, length_frames = 0, num_channels = 0, sample_rate = 0\<rparr> g_memory_buffer
     = Inr (0, \<lparr>data = NullPtr, length_frames = 0, num_channels = 0, sample_rate = 0\<rparr>,
            g_memory_buffer)"
proof -
  let ?a = "\<lparr>data = [Finite 1, Finite 2, Finite 3], length_frames = 3, num_channels = 1,
             sample_rate = 8000\<rparr> :: fval list AudioBuffer"
  let ?b = "\<lparr>data = [Finite 4, Finite 5, Finite 6, Finite 7, Finite 8], length_frames = 5,
             num_channels = 1, sample_rate = 8000\<rparr> :: fval list AudioBuffer"
  let ?b' = "\<lparr>data = [Finite 4, Finite 5, Finite 6, Finite 7, Finite 8], length_frames = 5,
             num_channels = 1, sample_rate = 16000\<rparr> :: fval list AudioBuffer"
  let ?out = "\<lparr>data = NullPtr, length_frames = 0, num_channels = 0, sample_rate = 0\<rparr> :: fptr AudioBuffer"
  have ok: "arena_ok g_memory_buffer" by (simp add: arena_ok_def g_memory_buffer_def)
  have len: "merge_length [?a, ?b] = 8" by (simp add: merge_length_def frames_def)
  have one: "returned (wasm_merge_audio_buffers True [?a, ?b] 2 ?out g_memory_buffer) = Some 8"
    using merge_concatenates [of "[?a, ?b]" 2 g_memory_buffer True ?out] ok
    by (auto simp: len frames_def returned_def)
  have two: "wasm_merge_audio_buffers True [?a, ?b'] 2 ?out g_memory_buffer
              = Inr (0, ?out, g_memory_buffer)"
    using merge_concatenates [of "[?a, ?b']" 2 g_memory_buffer True ?out] by simp
  show ?thesis using ok one two by simp
qed

section \<open>The frame count of the resampler\<close>

text \<open>
  Claim C8 as stated fails: the count is computed in \<open>double\<close>, and the ratio is rounded
  before it is multiplied by the length.  For 11 frames at 11000 Hz resampled to 15000 Hz
  the exact count is \<open>11 \<cdot> 15000 / 11000 = 15\<close>; the ratio \<open>15000 / 11000\<close> rounds down, the
  product is \<open>14.999999999999998\<close>, and the call returns 14.
\<close>

theorem resample_length_counterexample:
  "returned (wasm_resample_audio True
      \<lparr>data = replicate 11 (Finite 0), length_frames = 11, num_channels = 1, sample_rate = 11000\<rparr>
      15000
      \<lparr>data = NullPtr, length_frames = 0, num_channels = 0, sample_rate = 0\<rparr> g_memory_buffer)
     = Some 14
   \<and> exact_length 11 15000 11000 = 15"
proof -
  let ?src = "\<lparr>data = replicate 11 (Finite 0), length_frames = 11, num_channels = 1,
               sample_rate = 11000\<rparr> :: fval list AudioBuffer"
  have n: "resample_length 11 15000 11000 = 14"
    by (simp add: resample_length_def resample_ratio_def float_eval)
  have e: "exact_length 11 15000 11000 = 15"
    by (simp add: exact_length_def rat_eval)
  have "\<exists>m'. wasm_resample_audio True ?src 15000
            \<lparr>data = NullPtr, length_frames = 0, num_channels = 0, sample_rate = 0\<rparr> g_memory_buffer
          = Inr (word_of_int (resample_length (length_frames ?src) 15000 (sample_rate ?src)),
                 \<lparr>data = arena_ptr m',
                  length_frames = word_of_int
                    (resample_length (length_frames ?src) 15000 (sample_rate ?src)),
                  num_channels = num_channels ?src, sample_rate = 15000\<rparr>, m')
          \<and> size_used m' = of_nat (4 * (unat (num_channels ?src)
                     * nat (resample_length (length_frames ?src) 15000 (sample_rate ?src))))
          \<and> arena_ok m'"
    by (rule resample_runs) (simp_all add: n frames_def arena_ok_def g_memory_buffer_def)
  then show ?thesis using e by (auto simp: returned_def n)
qed

text \<open>
  Claim C8, amended.  Let the source rate be neither 0 nor the target rate, let
  \<open>E = floor (length \<cdot> target / source)\<close> (the exact rational) with \<open>E + 1 < 2^32\<close> and
  \<open>4 \<cdot> channels \<cdot> (E + 1) < 2^32\<close>, let the source hold \<open>channels \<cdot> length\<close> samples and the
  storage of the arena have \<open>capacity\<close> bytes, and let the allocation succeed or the arena hold
  \<open>4 \<cdot> channels \<cdot> (E + 1)\<close> bytes.  Then the call returns the count \<open>N\<close> the code computes in
  \<open>double\<close> (the length times the rounded ratio, rounded, the fraction dropped), writes it
  with the channel count and the target rate to the output descriptor, and sets
  \<open>used = 4 \<cdot> channels \<cdot> N\<close>.  \<open>N\<close> differs from \<open>E\<close> by at most 1, and \<open>N = E\<close> when the target
  rate is a multiple of the source rate.
\<close>

theorem resample_length_law:
  assumes diff: "sample_rate source \<noteq> target" and rate: "sample_rate source \<noteq> 0"
    and fits: "exact_length (length_frames source) target (sample_rate source) + 1 < 2 ^ 32"
    and small: "4 * (unat (num_channels source)
                     * nat (exact_length (length_frames source) target (sample_rate source) + 1))
                < 2 ^ 32"
    and wf: "unat (num_channels source) * frames source \<le> length (data source)"
    and ok: "arena_ok m"
    and alloc: "alloc_ok \<or> 4 * (unat (num_channels source)
                     * nat (exact_length (length_frames source) target (sample_rate source) + 1))
                   \<le> unat (capacity m)"
  shows "(\<exists>m'. wasm_resample_audio alloc_ok source target output m
            = Inr (word_of_int (resample_length (length_frames source) target (sample_rate source)),
                   \<lparr>data = arena_ptr m',
                    length_frames = word_of_int
                      (resample_length (length_frames source) target (sample_rate source)),
                    num_channels = num_channels source, sample_rate = target\<rparr>,
                   m')
          \<and> size_used m' = of_nat (4 * (unat (num_channels source)
                     * nat (resample_length (length_frames source) target (sample_rate source))))
          \<and> arena_ok m')
       \<and> 0 \<le> resample_length (length_frames source) target (sample_rate source)
       \<and> resample_length (length_frames source) target (sample_rate source) < 2 ^ 32
       \<and> \<bar>resample_length (length_frames source) target (sample_rate source)
           - exact_length (length_frames source) target (sample_rate source)\<bar> \<le> 1
       \<and> (uint (sample_rate source) dvd uint target \<longrightarrow>
            resample_length (length_frames source) target (sample_rate source)
            = exact_length (length_frames source) target (sample_rate source))"
proof -
  let ?N = "resample_length (length_frames source) target (sample_rate source)"
  let ?E = "exact_length (length_frames source) target (sample_rate source)"
  let ?C = "unat (num_channels source)"
  let ?x = "of_int (uint (length_frames source)) * of_int (uint target)
            / of_int (uint (sample_rate source)) :: rat"
  have "?x < of_int (\<lfloor>?x\<rfloor> + 1)" by linarith
  also have "\<dots> < of_int (2 ^ 32)" using fits unfolding exact_length_def by (simp only: of_int_less_iff)
  finally have x32: "?x < 2 ^ 32" by simp
  have n0: "0 \<le> ?N" by (rule resample_length_near(1) [OF rate x32])
  have near: "\<bar>?N - ?E\<bar> \<le> 1"
    unfolding exact_length_def by (rule resample_length_near(2) [OF rate x32])
  have le: "?N \<le> ?E + 1" using near by linarith
  then have n32: "?N < 2 ^ 32" using fits by linarith
  have "nat ?N \<le> nat (?E + 1)" using le by simp
  then have m: "4 * (?C * nat ?N) \<le> 4 * (?C * nat (?E + 1))" by simp
  have small': "4 * (?C * nat ?N) < 2 ^ 32" using m small by linarith
  have alloc': "alloc_ok \<or> 4 * (?C * nat ?N) \<le> unat (capacity m)" using m alloc by linarith
  have ex: "uint (sample_rate source) dvd uint target \<longrightarrow> ?N = ?E"
  proof
    assume d: "uint (sample_rate source) dvd uint target"
    have "?E < 2 ^ 32" using fits by simp
    from resample_length_exact [OF rate d this] show "?N = ?E" .
  qed
  show ?thesis
    using resample_runs [OF diff rate n32 small' wf ok alloc', of "output"] n0 n32 near ex
    by blast
qed

theorem resample_length_law_witness:
  "sample_rate \<lparr>data = [Finite 0, Finite 1, Finite 0, Finite 1], length_frames = 4,
                 num_channels = 1, sample_rate = 8000\<rparr> \<noteq> (12000 :: u32)
   \<and> exact_length 4 12000 8000 = 6
   \<and> arena_ok g_memory_buffer
   \<and> returned (wasm_resample_audio True
        \<lparr>data = [Finite 0, Finite 1, Finite 0, Finite 1], length_frames = 4,
         num_channels = 1, sample_rate = 8000\<rparr>
        12000
        \<lparr>data = NullPtr, length_frames = 0, num_channels = 0, sample_rate = 0\<rparr> g_memory_buffer)
      = Some 6
   \<and> resample_length 4 12000 8000 = 6"
proof -
  let ?src = "\<lparr>data = [Finite 0, Finite 1, Finite 0, Finite 1], length_frames = 4,
               num_channels = 1, sample_rate = 8000\<rparr> :: fval list AudioBuffer"
  have e: "exact_length 4 12000 8000 = 6" by (simp add: exact_length_def rat_eval)
  have n: "resample_length 4 12000 8000 = 6"
    by (simp add: resample_length_def resample_ratio_def float_eval)
  have h: "sample_rate ?src \<noteq> 12000" "sample_rate ?src \<noteq> 0"
    "exact_length (length_frames ?src) 12000 (sample_rate ?src) + 1 < 2 ^ 32"
    "4 * (unat (num_channels ?src)
          * nat (exact_length (length_frames ?src) 12000 (sample_rate ?src) + 1)) < 2 ^ 32"
    "unat (num_channels ?src) * frames ?src \<le> length (data ?src)"
    "arena_ok g_memory_buffer"
    "True \<or> 4 * (unat (num_channels ?src)
          * nat (exact_length (length_frames ?src) 12000 (sample_rate ?src) + 1))
        \<le> unat (capacity g_memory_buffer)"
    by (simp_all add: e frames_def arena_ok_def g_memory_buffer_def)
  show ?thesis
    using h(1,6) resample_length_law [OF h,
        of "\<lparr>data = NullPtr, length_frames = 0, num_channels = 0, sample_rate = 0\<rparr>"]
    by (auto simp: returned_def e n)
qed

end
